theory Spec2Isabelle
  imports Complex_Main "HOL-Library.Product_Lexorder" "HOL-Library.Multiset"
begin

unbundle bit_operations_syntax

section \<open>Data model\<close>

text \<open>
  Python exceptions that the modelled functions of \<^verbatim>\<open>plotter.py\<close> can raise.
  A function that can raise returns \<open>error + 'a\<close>, with \<open>Inl\<close> the exception.
\<close>

datatype error =
    IndexError
  | KeyError
  | ZeroDivisionError
  | ValueError
  | TypeError
  | UnboundLocalError
  | OverflowError
  | RuntimeError string

text \<open>
  A gapless block is the tuple \<open>(beg1, beg2, size)\<close> (written \<open>sz\<close> below); a requested range is the pair
  \<open>(beg, end)\<close>. Python integers are unbounded, hence \<open>int\<close>.
\<close>

type_synonym block = "int \<times> int \<times> int"
type_synonym range = "int \<times> int"

text \<open>
  A list comprehension whose body can raise: the results in order, or the first exception.
\<close>

fun mapE :: "('a \<Rightarrow> error + 'b) \<Rightarrow> 'a list \<Rightarrow> error + 'b list" where
  "mapE f [] = Inr []"
| "mapE f (x # xs) =
     (case f x of
        Inl e \<Rightarrow> Inl e
      | Inr y \<Rightarrow> (case mapE f xs of Inl e \<Rightarrow> Inl e | Inr ys \<Rightarrow> Inr (y # ys)))"

section \<open>Cropping blocks to requested ranges (\<^verbatim>\<open>croppedBlocks\<close>)\<close>

text \<open>
  Lines 46--51: the crop interval of one requested range, negated and swapped when the
  head block of the alignment begins at a negative (reverse-strand) coordinate.
\<close>

definition cropRange :: "int \<Rightarrow> range \<Rightarrow> range" where
  "cropRange headBeg r =
     (case r of (cropBeg, cropEnd) \<Rightarrow>
        if headBeg < 0 then (- cropEnd, - cropBeg) else (cropBeg, cropEnd))"

text \<open>Lines 52--60: the innermost loop over the blocks, for fixed crop intervals.\<close>

fun clipBlocks :: "int \<Rightarrow> int \<Rightarrow> int \<Rightarrow> int \<Rightarrow> block list \<Rightarrow> block list" where
  "clipBlocks cropBeg1 cropEnd1 cropBeg2 cropEnd2 [] = []"
| "clipBlocks cropBeg1 cropEnd1 cropBeg2 cropEnd2 ((beg1, beg2, sz) # blocks) =
     (let b1 = max cropBeg1 beg1;
          e1 = min cropEnd1 (beg1 + sz)
      in if b1 \<ge> e1 then clipBlocks cropBeg1 cropEnd1 cropBeg2 cropEnd2 blocks
         else
           let offset = beg2 - beg1;
               b2 = max cropBeg2 (b1 + offset);
               e2 = min cropEnd2 (e1 + offset)
           in if b2 \<ge> e2 then clipBlocks cropBeg1 cropEnd1 cropBeg2 cropEnd2 blocks
              else (b2 - offset, b2, e2 - b2)
                     # clipBlocks cropBeg1 cropEnd1 cropBeg2 cropEnd2 blocks)"

text \<open>Lines 46--60: everything that is yielded for one pair of requested ranges.\<close>

definition croppedPair :: "block list \<Rightarrow> int \<Rightarrow> int \<Rightarrow> range \<Rightarrow> range \<Rightarrow> block list" where
  "croppedPair blocks headBeg1 headBeg2 r1 r2 =
     (case cropRange headBeg1 r1 of (cropBeg1, cropEnd1) \<Rightarrow>
      case cropRange headBeg2 r2 of (cropBeg2, cropEnd2) \<Rightarrow>
        clipBlocks cropBeg1 cropEnd1 cropBeg2 cropEnd2 blocks)"

text \<open>
  The generator as the list of everything it yields. \<^verbatim>\<open>blocks[0]\<close> raises
  \<^verbatim>\<open>IndexError\<close> on an empty block list.
\<close>

definition croppedBlocks :: "block list \<Rightarrow> range list \<Rightarrow> range list \<Rightarrow> error + block list" where
  "croppedBlocks blocks ranges1 ranges2 =
     (case blocks of
        [] \<Rightarrow> Inl IndexError
      | (headBeg1, headBeg2, headSize) # _ \<Rightarrow>
          Inr (concat (map (\<lambda>r1. concat (map (\<lambda>r2.
                 croppedPair blocks headBeg1 headBeg2 r1 r2) ranges2)) ranges1)))"

text \<open>
  Blocks of one alignment: every size is positive and each block begins, in both
  coordinates, at or after the end of the block before it.
\<close>

fun monotonicBlocks :: "block list \<Rightarrow> bool" where
  "monotonicBlocks [] = True"
| "monotonicBlocks [(beg1, beg2, sz)] = (sz > 0)"
| "monotonicBlocks ((beg1, beg2, sz) # (nextBeg1, nextBeg2, nextSz) # blocks) =
     (sz > 0 \<and> beg1 + sz \<le> nextBeg1 \<and> beg2 + sz \<le> nextBeg2
      \<and> monotonicBlocks ((nextBeg1, nextBeg2, nextSz) # blocks))"

text \<open>The aligned letter pairs \<open>(position1, position2)\<close> that a block covers.\<close>

definition cells :: "block \<Rightarrow> (int \<times> int) set" where
  "cells b = (case b of (beg1, beg2, sz) \<Rightarrow> {(beg1 + t, beg2 + t) | t. 0 \<le> t \<and> t < sz})"

text \<open>The block \<open>sub\<close> is a piece of the block \<open>b\<close>: the same diagonal, inside its extent.\<close>

definition pieceOf :: "block \<Rightarrow> block \<Rightarrow> bool" where
  "pieceOf sub b =
     (case sub of (begOut1, begOut2, sizeOut) \<Rightarrow>
      case b of (beg1, beg2, sz) \<Rightarrow>
        begOut2 - begOut1 = beg2 - beg1 \<and> beg1 \<le> begOut1 \<and> begOut1 + sizeOut \<le> beg1 + sz)"

text \<open>
  The clip of a single block (lines 53--60 with the local variables substituted): \<open>None\<close>
  when one of the two \<^verbatim>\<open>continue\<close> statements is taken, the yielded block otherwise.
  \<open>clipBlocks\<close> is shown below to yield exactly these clips, in order.
\<close>

definition clipOne :: "int \<Rightarrow> int \<Rightarrow> int \<Rightarrow> int \<Rightarrow> block \<Rightarrow> block option" where
  "clipOne cropBeg1 cropEnd1 cropBeg2 cropEnd2 b =
     (case b of (beg1, beg2, sz) \<Rightarrow>
        if max cropBeg1 beg1 \<ge> min cropEnd1 (beg1 + sz) then None
        else if max cropBeg2 (max cropBeg1 beg1 + (beg2 - beg1))
                  \<ge> min cropEnd2 (min cropEnd1 (beg1 + sz) + (beg2 - beg1)) then None
        else Some (max cropBeg2 (max cropBeg1 beg1 + (beg2 - beg1)) - (beg2 - beg1),
                   max cropBeg2 (max cropBeg1 beg1 + (beg2 - beg1)),
                   min cropEnd2 (min cropEnd1 (beg1 + sz) + (beg2 - beg1))
                     - max cropBeg2 (max cropBeg1 beg1 + (beg2 - beg1))))"

section \<open>Merging covered intervals (\<^verbatim>\<open>mergedRanges\<close>)\<close>

text \<open>
  Lines 318--325: the loop of \<^verbatim>\<open>mergedRanges\<close> with its two variables \<^verbatim>\<open>oldBeg\<close> and
  \<^verbatim>\<open>maxEnd\<close>, as the list of everything it yields (\<open>en\<close> stands for \<^verbatim>\<open>end\<close>).
\<close>

fun mergeLoop :: "int \<Rightarrow> int \<Rightarrow> range list \<Rightarrow> range list" where
  "mergeLoop oldBeg maxEnd [] = [(oldBeg, maxEnd)]"
| "mergeLoop oldBeg maxEnd ((beg, en) # ranges) =
     (if beg > maxEnd then (oldBeg, maxEnd) # mergeLoop beg en ranges
      else if en > maxEnd then mergeLoop oldBeg en ranges
      else mergeLoop oldBeg maxEnd ranges)"

text \<open>
  Line 317 reads \<^verbatim>\<open>ranges[0]\<close>, which raises \<^verbatim>\<open>IndexError\<close> on an empty list; the loop
  then runs over all of \<^verbatim>\<open>ranges\<close>, the first element included.
\<close>

definition mergedRanges :: "range list \<Rightarrow> error + range list" where
  "mergedRanges ranges =
     (case ranges of
        [] \<Rightarrow> Inl IndexError
      | (oldBeg, maxEnd) # _ \<Rightarrow> Inr (mergeLoop oldBeg maxEnd ranges))"

text \<open>
  Lines 327--330. The dictionary is an association list in insertion order; \<^verbatim>\<open>v.sort()\<close>
  sorts pairs lexicographically, as \<open>sort\<close> does on \<open>int \<times> int\<close>.
\<close>

fun mergedRangesPerSeq :: "(string \<times> range list) list \<Rightarrow> error + (string \<times> range list) list" where
  "mergedRangesPerSeq [] = Inr []"
| "mergedRangesPerSeq ((k, v) # coverDict) =
     (case mergedRanges (sort v) of
        Inl e \<Rightarrow> Inl e
      | Inr merged \<Rightarrow>
          (case mergedRangesPerSeq coverDict of
             Inl e \<Rightarrow> Inl e
           | Inr rest \<Rightarrow> Inr ((k, merged) # rest)))"

text \<open>The positions covered by a list of half-open intervals, and their summed lengths.\<close>

definition covered :: "range list \<Rightarrow> int set" where
  "covered ranges = (\<Union>(beg, en) \<in> set ranges. {beg..<en})"

definition totalLength :: "range list \<Rightarrow> int" where
  "totalLength ranges = sum_list (map (\<lambda>(beg, en). en - beg) ranges)"

text \<open>Two intervals with a gap between them: the first ends before the second begins.\<close>

definition apart :: "range \<Rightarrow> range \<Rightarrow> bool" where
  "apart x y = (snd x < fst y)"

section \<open>Pixel layout (\<^verbatim>\<open>get_bp_per_pix\<close>, \<^verbatim>\<open>pixelData\<close>, \<^verbatim>\<open>rangesWithOrigins\<close>)\<close>

text \<open>
  Lines 522--525: \<^verbatim>\<open>divmod\<close> is floor division (as \<open>div\<close> and \<open>mod\<close> on \<open>int\<close> are, for
  either sign of the divisor) and raises \<^verbatim>\<open>ZeroDivisionError\<close> on a zero divisor; the
  comparison \<^verbatim>\<open>r != 0\<close> is added as 0 or 1.
\<close>

definition div_ceil :: "int \<Rightarrow> int \<Rightarrow> error + int" where
  "div_ceil x y =
     (if y = 0 then Inl ZeroDivisionError
      else Inr (x div y + (if x mod y \<noteq> 0 then 1 else 0)))"

text \<open>
  Lines 536--539: the \<^verbatim>\<open>while True\<close> loop of \<^verbatim>\<open>get_bp_per_pix\<close>. It need not terminate,
  so it is a partial function: \<open>None\<close> is "does not return". The generator inside
  \<^verbatim>\<open>sum\<close> divides by \<^verbatim>\<open>negBpPerPix\<close> once per range, so a zero divisor raises exactly when
  there is a range.
\<close>

partial_function (option) bp_per_pix_loop :: "int list \<Rightarrow> int \<Rightarrow> int \<Rightarrow> (error + int) option" where
  "bp_per_pix_loop rangeSizes negLimit negBpPerPix =
     (if negBpPerPix = 0 \<and> rangeSizes \<noteq> [] then Some (Inl ZeroDivisionError)
      else if sum_list (map (\<lambda>i. i div negBpPerPix) rangeSizes) \<ge> negLimit
           then Some (Inr (- negBpPerPix))
      else bp_per_pix_loop rangeSizes negLimit (negBpPerPix - 1))"

text \<open>Lines 527--539. Line 535 divides by \<^verbatim>\<open>negLimit\<close>, which may be zero.\<close>

definition get_bp_per_pix :: "int list \<Rightarrow> int \<Rightarrow> int \<Rightarrow> (error + int) option" where
  "get_bp_per_pix rangeSizes pixTweenRanges maxPixels =
     (let numOfRanges = int (length rangeSizes);
          maxPixelsInRanges = maxPixels - pixTweenRanges * (numOfRanges - 1)
      in if maxPixelsInRanges < numOfRanges
         then Some (Inl (RuntimeError ''can't fit the image: too many sequences?''))
         else
           let negLimit = - maxPixelsInRanges
           in if negLimit = 0 then Some (Inl ZeroDivisionError)
              else bp_per_pix_loop rangeSizes negLimit (sum_list rangeSizes div negLimit))"

text \<open>
  The pixels that the ranges take at \<open>S\<close> bases per pixel: the sum of \<open>\<lceil>size / S\<rceil>\<close>, with the
  ceiling of the real quotient.
\<close>

definition pixelsUsed :: "int list \<Rightarrow> int \<Rightarrow> int" where
  "pixelsUsed rangeSizes S = sum_list (map (\<lambda>sz. \<lceil>real_of_int sz / real_of_int S\<rceil>) rangeSizes)"

text \<open>
  Lines 541--549: the loop of \<^verbatim>\<open>getRangePixBegs\<close> with its running total \<^verbatim>\<open>pix_tot\<close>, as the
  list of the appended values.
\<close>

fun rangePixBegsLoop :: "int \<Rightarrow> int \<Rightarrow> int list \<Rightarrow> int list" where
  "rangePixBegsLoop pix_tot pixTweenRanges [] = []"
| "rangePixBegsLoop pix_tot pixTweenRanges (i # rangePixLens) =
     (pix_tot + pixTweenRanges)
       # rangePixBegsLoop (pix_tot + pixTweenRanges + i) pixTweenRanges rangePixLens"

definition getRangePixBegs :: "int list \<Rightarrow> int \<Rightarrow> int \<Rightarrow> int list" where
  "getRangePixBegs rangePixLens pixTweenRanges margin =
     rangePixBegsLoop (margin - pixTweenRanges) pixTweenRanges rangePixLens"

text \<open>
  Lines 551--556. \<^verbatim>\<open>rangePixBegs[-1]\<close> raises \<^verbatim>\<open>IndexError\<close> when there is no range; the two
  lists have the same length, so \<^verbatim>\<open>rangePixLens[-1]\<close> raises in the same case only.
\<close>

definition pixelData :: "int list \<Rightarrow> int \<Rightarrow> int \<Rightarrow> int \<Rightarrow> error + (int list \<times> int list \<times> int)" where
  "pixelData rangeSizes bp_per_pix pixTweenRanges margin =
     (case mapE (\<lambda>i. div_ceil i bp_per_pix) rangeSizes of
        Inl e \<Rightarrow> Inl e
      | Inr rangePixLens \<Rightarrow>
          let rangePixBegs = getRangePixBegs rangePixLens pixTweenRanges margin
          in if rangePixBegs = [] then Inl IndexError
             else Inr (rangePixBegs, rangePixLens, last rangePixBegs + last rangePixLens))"

text \<open>
  A sorted range is \<open>(seqName, rangeBeg, rangeEnd, strandNum)\<close>; with its origin it becomes
  \<open>(rangeBeg, rangeEnd, isReverseRange, origin)\<close>. Line 516 of \<^verbatim>\<open>dataFromRanges\<close> computes
  the range sizes that \<^verbatim>\<open>lastDotplot\<close> passes on to \<^verbatim>\<open>pixelData\<close>.
\<close>

type_synonym seqRange = "string \<times> int \<times> int \<times> int"
type_synonym orientedRange = "int \<times> int \<times> bool \<times> int"

definition rangeSizesOf :: "seqRange list \<Rightarrow> int list" where
  "rangeSizesOf sortedRanges = map (\<lambda>(n, b, e, s). e - b) sortedRanges"

text \<open>Lines 880--888; \<^verbatim>\<open>zip\<close> stops at the shortest of the three lists.\<close>

fun rangesWithOrigins :: "seqRange list \<Rightarrow> int list \<Rightarrow> int list \<Rightarrow> int \<Rightarrow> (string \<times> orientedRange) list" where
  "rangesWithOrigins ((seqName, rangeBeg, rangeEnd, strandNum) # sortedRanges)
       (j # rangePixBegs) (k # rangePixLens) bpPerPix =
     (let isReverseRange = (strandNum > 1);
          origin = (if isReverseRange then bpPerPix * (j + k) + rangeBeg
                    else bpPerPix * j - rangeBeg)
      in (seqName, (rangeBeg, rangeEnd, isReverseRange, origin))
           # rangesWithOrigins sortedRanges rangePixBegs rangePixLens bpPerPix)"
| "rangesWithOrigins _ _ _ _ = []"

section \<open>Strand votes and sorting options (\<^verbatim>\<open>rangesWithStrandInfo\<close>, \<^verbatim>\<open>allSortedRanges\<close>)\<close>

text \<open>
  An alignment is a triple of two sequence names and a block list. A raised exception is the
  \<open>Inl\<close> of a result; \<open>bindE\<close> sequences two computations that may raise.
\<close>

type_synonym alignment = "string \<times> string \<times> block list"

definition bindE :: "error + 'a \<Rightarrow> ('a \<Rightarrow> error + 'b) \<Rightarrow> error + 'b" where
  "bindE m f = (case m of Inl e \<Rightarrow> Inl e | Inr x \<Rightarrow> f x)"

fun pysplit :: "char \<Rightarrow> string \<Rightarrow> string list" where
  "pysplit separator [] = [[]]"
| "pysplit separator (c # text) =
     (if c = separator then [] # pysplit separator text
      else (case pysplit separator text of
              [] \<Rightarrow> [[c]]
            | w # ws \<Rightarrow> (c # w) # ws))"

definition twoValuesFromOption :: "string \<Rightarrow> char \<Rightarrow> string list" where
  "twoValuesFromOption text separator =
     (if separator \<in> set text then pysplit separator text else [text, text])"

fun unpack2 :: "'a list \<Rightarrow> error + ('a \<times> 'a)" where
  "unpack2 [a, b] = Inr (a, b)"
| "unpack2 _ = Inl ValueError"

definition alignmentItem :: "alignment \<Rightarrow> int \<Rightarrow> error + string" where
  "alignmentItem i seqIndex =
     (case i of (seq1, seq2, blocks) \<Rightarrow>
        if seqIndex = 0 \<or> seqIndex = - 3 then Inr seq1
        else if seqIndex = 1 \<or> seqIndex = - 2 then Inr seq2
        else if seqIndex = 2 \<or> seqIndex = - 1 then Inl TypeError
        else Inl IndexError)"

fun strandVotes :: "alignment list \<Rightarrow> int \<Rightarrow> (string \<Rightarrow> int) \<Rightarrow> error + (string \<Rightarrow> int)" where
  "strandVotes [] seqIndex forwardMinusReverse = Inr forwardMinusReverse"
| "strandVotes ((seq1, seq2, blocks) # alignments) seqIndex forwardMinusReverse =
     (case blocks of
        [] \<Rightarrow> Inl IndexError
      | (beg1, beg2, sz) # _ \<Rightarrow>
          let numOfAlignedLetterPairs = sum_list (map (\<lambda>(b1, b2, s). s) blocks);
              numOfAlignedLetterPairs =
                (if (beg1 < 0) \<noteq> (beg2 < 0) then numOfAlignedLetterPairs * (- 1)
                 else numOfAlignedLetterPairs)
          in bindE (alignmentItem (seq1, seq2, blocks) seqIndex) (\<lambda>name.
               strandVotes alignments seqIndex
                 (forwardMinusReverse(name := forwardMinusReverse name + numOfAlignedLetterPairs))))"

definition rangesWithStrandInfo ::
  "(string \<times> int \<times> int) list \<Rightarrow> string \<Rightarrow> alignment list \<Rightarrow> int \<Rightarrow> error + seqRange list" where
  "rangesWithStrandInfo seqRanges strandOpt alignments seqIndex =
     (if strandOpt = ''1''
      then bindE (strandVotes alignments seqIndex (\<lambda>_. 0)) (\<lambda>forwardMinusReverse.
             Inr (map (\<lambda>(seqName, beg, en).
                    (seqName, beg, en, if forwardMinusReverse seqName \<ge> 0 then 1 else 2))
                  seqRanges))
      else Inr (map (\<lambda>(seqName, beg, en). (seqName, beg, en, 0)) seqRanges))"

text \<open>
  The vote of one sequence, stated independently of the loop: the aligned letter pairs of each
  of its alignments, negated when the first block has exactly one negative begin coordinate.
\<close>

definition alignedLetterPairs :: "alignment \<Rightarrow> int" where
  "alignedLetterPairs a = (case a of (seq1, seq2, blocks) \<Rightarrow> sum_list (map (\<lambda>(b1, b2, s). s) blocks))"

definition oppositeStrand :: "alignment \<Rightarrow> bool" where
  "oppositeStrand a =
     (case a of (seq1, seq2, blocks) \<Rightarrow>
        case hd blocks of (beg1, beg2, sz) \<Rightarrow> (beg1 < 0 \<and> \<not> beg2 < 0) \<or> (\<not> beg1 < 0 \<and> beg2 < 0))"

definition signedLetterPairs :: "alignment \<Rightarrow> int" where
  "signedLetterPairs a = (if oppositeStrand a then - alignedLetterPairs a else alignedLetterPairs a)"

definition alignmentsOf :: "alignment list \<Rightarrow> int \<Rightarrow> string \<Rightarrow> alignment list" where
  "alignmentsOf alignments seqIndex seqName =
     filter (\<lambda>(seq1, seq2, blocks). (if seqIndex = 0 then seq1 else seq2) = seqName) alignments"

definition signedSum :: "alignment list \<Rightarrow> int \<Rightarrow> string \<Rightarrow> int" where
  "signedSum alignments seqIndex seqName =
     sum_list (map signedLetterPairs (alignmentsOf alignments seqIndex seqName))"

text \<open>
  \<^verbatim>\<open>allSortedRanges\<close>. The sorting routine \<^verbatim>\<open>mySortedRanges\<close> is a parameter, so that
  whatever is proved holds for every sorting routine. A local name that is read before it is
  bound is \<open>None\<close>.
\<close>

record opts =
  strands1 :: string
  strands2 :: string
  sort1 :: string
  sort2 :: string

type_synonym sorter =
  "seqRange list \<Rightarrow> string \<Rightarrow> int option \<Rightarrow> alignment list option \<Rightarrow> seqRange list option
     \<Rightarrow> error + seqRange list"

definition allSortedRanges ::
  "sorter \<Rightarrow> opts \<Rightarrow> alignment list \<Rightarrow> alignment list
     \<Rightarrow> (string \<times> int \<times> int) list \<Rightarrow> (string \<times> int \<times> int) list
     \<Rightarrow> (string \<times> int \<times> int) list \<Rightarrow> (string \<times> int \<times> int) list
     \<Rightarrow> error + (seqRange list \<times> seqRange list)" where
  "allSortedRanges mySortedRanges opts alignments alignmentsB
       seqRanges1 seqRangesB1 seqRanges2 seqRangesB2 =
     bindE (unpack2 (twoValuesFromOption (strands1 opts) CHR '':'')) (\<lambda>(o1, oB1).
     bindE (unpack2 (twoValuesFromOption (strands2 opts) CHR '':'')) (\<lambda>(o2, oB2).
     if o1 = ''1'' \<and> o2 = ''1''
     then Inl (RuntimeError ''the strand options have circular dependency'')
     else
     bindE (rangesWithStrandInfo seqRanges1 o1 alignments 0) (\<lambda>seqRanges1.
     bindE (rangesWithStrandInfo seqRanges2 o2 alignments 1) (\<lambda>seqRanges2.
     bindE (rangesWithStrandInfo seqRangesB1 oB1 alignmentsB 0) (\<lambda>seqRangesB1.
     bindE (rangesWithStrandInfo seqRangesB2 oB2 alignmentsB 1) (\<lambda>seqRangesB2.
     bindE (unpack2 (twoValuesFromOption (sort1 opts) CHR '':'')) (\<lambda>(o1, oB1).
     bindE (unpack2 (twoValuesFromOption (sort2 opts) CHR '':'')) (\<lambda>(o2, oB2).
     if o1 = ''3'' \<and> o2 = ''3''
     then Inl (RuntimeError ''the sort options have circular dependency'')
     else
     bindE (if o1 \<noteq> ''3''
            then bindE (mySortedRanges seqRanges1 o1 None None None) (\<lambda>s. Inr (Some s))
            else Inr None) (\<lambda>s1.
     bindE (if o2 \<noteq> ''3''
            then bindE (mySortedRanges seqRanges2 o2 None None None) (\<lambda>s. Inr (Some s))
            else Inr None) (\<lambda>s2.
     bindE (if o1 = ''3''
            then bindE (mySortedRanges seqRanges1 o1 (Some 0) (Some alignments) s2)
                   (\<lambda>s. Inr (Some s))
            else Inr s1) (\<lambda>s1.
     bindE (if o2 = ''3''
            then bindE (mySortedRanges seqRanges2 o2 (Some 1) (Some alignments) s1)
                   (\<lambda>s. Inr (Some s))
            else Inr s2) (\<lambda>s2.
     bindE (mySortedRanges seqRangesB1 oB1 (Some 0) (Some alignmentsB) s2) (\<lambda>t1.
     bindE (mySortedRanges seqRangesB2 oB2 (Some 1) (Some alignmentsB) s1) (\<lambda>t2.
     case (s1, s2) of
       (Some s1, Some s2) \<Rightarrow> Inr (s1 @ t1, s2 @ t2)
     | _ \<Rightarrow> Inl UnboundLocalError))))))))))))))"

section \<open>Trimming ranges to the covered region (\<^verbatim>\<open>trimmed\<close>)\<close>

subsection \<open>Python floats\<close>

text \<open>
  The two gap thresholds of \<^verbatim>\<open>trimmed\<close> are Python floats, that is IEEE 754 binary64
  numbers: a finite one is the real number it denotes, the others are the two infinities and
  not-a-number. The sign of a zero is not kept: \<^verbatim>\<open>trimmed\<close> only multiplies and compares
  floats, which does not observe it.
\<close>

datatype pyfloat = Finite real | PosInf | NegInf | NaN

text \<open>
  Rounding of a real number to the nearest binary64 number, ties to the even significand:
  the binary exponent \<open>e\<close> with \<open>2\<^sup>e \<le> \<bar>x\<bar> < 2\<^sup>e\<^sup>+\<^sup>1\<close> (from the length in bits of an
  integer), not below \<open>-1022\<close> (subnormal numbers), the spacing \<open>2\<^sup>e\<^sup>-\<^sup>5\<^sup>2\<close> of the
  binary64 numbers there, and overflow to an infinity from \<open>2\<^sup>1\<^sup>0\<^sup>2\<^sup>4\<close> on.
\<close>

function bitLength :: "int \<Rightarrow> nat" where
  "bitLength n = (if n \<le> 0 then 0 else Suc (bitLength (n div 2)))"
  by auto
termination by (relation "measure nat") auto

declare bitLength.simps [simp del]

definition pow2 :: "int \<Rightarrow> real" where
  "pow2 k = (if 0 \<le> k then 2 ^ nat k else 1 / 2 ^ nat (- k))"

definition binexp :: "real \<Rightarrow> int" where
  "binexp a = (if 1 \<le> a then int (bitLength \<lfloor>a\<rfloor>) - 1
               else - int (bitLength (\<lceil>1 / a\<rceil> - 1)))"

definition roundHalfEven :: "real \<Rightarrow> int" where
  "roundHalfEven x =
     (let f = \<lfloor>x\<rfloor>; d = x - of_int f
      in if d < 1 / 2 then f
         else if 1 / 2 < d then f + 1
         else if even f then f else f + 1)"

definition round64 :: "real \<Rightarrow> pyfloat" where
  "round64 x =
     (if x = 0 then Finite 0
      else
        let a = \<bar>x\<bar>;
            e = max (binexp a) (- 1022);
            q = pow2 (e - 52);
            y = of_int (roundHalfEven (a / q)) * q
        in if pow2 1024 \<le> y then (if 0 < x then PosInf else NegInf)
           else Finite (if 0 < x then y else - y))"

text \<open>
  The conversion of an integer operand rounds in the same way and raises
  \<open>OverflowError\<close> instead of giving an infinity. The product of two floats is the rounded
  exact product. \<^verbatim>\<open>a > b\<close> is false when either side is not-a-number, and the comparison of
  an integer with a float is exact. \<^verbatim>\<open>max(a, b)\<close> keeps \<open>a\<close> unless \<^verbatim>\<open>b > a\<close>.
\<close>

definition float_of_int :: "int \<Rightarrow> error + pyfloat" where
  "float_of_int i =
     (case round64 (of_int i) of Finite y \<Rightarrow> Inr (Finite y) | _ \<Rightarrow> Inl OverflowError)"

fun float_mul :: "pyfloat \<Rightarrow> pyfloat \<Rightarrow> pyfloat" where
  "float_mul NaN _ = NaN"
| "float_mul _ NaN = NaN"
| "float_mul (Finite a) (Finite b) = round64 (a * b)"
| "float_mul (Finite a) PosInf = (if a = 0 then NaN else if 0 < a then PosInf else NegInf)"
| "float_mul (Finite a) NegInf = (if a = 0 then NaN else if 0 < a then NegInf else PosInf)"
| "float_mul PosInf (Finite b) = (if b = 0 then NaN else if 0 < b then PosInf else NegInf)"
| "float_mul NegInf (Finite b) = (if b = 0 then NaN else if 0 < b then NegInf else PosInf)"
| "float_mul PosInf PosInf = PosInf"
| "float_mul PosInf NegInf = NegInf"
| "float_mul NegInf PosInf = NegInf"
| "float_mul NegInf NegInf = PosInf"

fun float_gt :: "pyfloat \<Rightarrow> pyfloat \<Rightarrow> bool" where
  "float_gt NaN _ = False"
| "float_gt _ NaN = False"
| "float_gt (Finite a) (Finite b) = (b < a)"
| "float_gt (Finite a) PosInf = False"
| "float_gt (Finite a) NegInf = True"
| "float_gt PosInf PosInf = False"
| "float_gt PosInf _ = True"
| "float_gt NegInf _ = False"

fun int_gt_float :: "int \<Rightarrow> pyfloat \<Rightarrow> bool" where
  "int_gt_float i (Finite x) = (x < of_int i)"
| "int_gt_float i PosInf = False"
| "int_gt_float i NegInf = True"
| "int_gt_float i NaN = False"

definition pymax :: "pyfloat \<Rightarrow> pyfloat \<Rightarrow> pyfloat" where
  "pymax a b = (if float_gt b a then b else a)"

text \<open>
  \<^verbatim>\<open>float(text)\<close>: surrounding white space is dropped; an underscore is allowed only
  between two digits; then an optional sign followed by \<^verbatim>\<open>inf\<close>, \<^verbatim>\<open>infinity\<close> or \<^verbatim>\<open>nan\<close> in
  any case, or by a decimal number with at least one digit and an optional exponent. Anything
  else raises \<open>ValueError\<close>. The decimal value is rounded to binary64.
\<close>

definition isSpace :: "char \<Rightarrow> bool" where
  "isSpace c = (c \<in> set [CHR '' '', CHR 0x09, CHR 0x0A, CHR 0x0B, CHR 0x0C, CHR 0x0D,
                           CHR 0x1C, CHR 0x1D, CHR 0x1E, CHR 0x1F, CHR 0x85, CHR 0xA0])"

definition isDigit :: "char \<Rightarrow> bool" where
  "isDigit c = (c \<in> set ''0123456789'')"

definition digitVal :: "char \<Rightarrow> nat" where
  "digitVal c = length (takeWhile (\<lambda>d. d \<noteq> c) ''0123456789'')"

definition digitsVal :: "string \<Rightarrow> nat" where
  "digitsVal ds = foldl (\<lambda>n c. 10 * n + digitVal c) 0 ds"

definition lowerChar :: "char \<Rightarrow> char" where
  "lowerChar c =
     (case map_of (zip ''ABCDEFGHIJKLMNOPQRSTUVWXYZ'' ''abcdefghijklmnopqrstuvwxyz'') c of
        Some l \<Rightarrow> l | None \<Rightarrow> c)"

fun underscoresOk :: "char \<Rightarrow> string \<Rightarrow> bool" where
  "underscoresOk prev [] = (prev \<noteq> CHR ''_'')"
| "underscoresOk prev (c # cs) =
     ((if c = CHR ''_'' then isDigit prev else (prev = CHR ''_'' \<longrightarrow> isDigit c))
      \<and> underscoresOk c cs)"

definition splitSign :: "string \<Rightarrow> bool \<times> string" where
  "splitSign s =
     (case s of
        [] \<Rightarrow> (False, [])
      | c # cs \<Rightarrow> if c = CHR ''-'' then (True, cs)
                  else if c = CHR ''+'' then (False, cs) else (False, s))"

definition pow10 :: "int \<Rightarrow> real" where
  "pow10 k = (if 0 \<le> k then 10 ^ nat k else 1 / 10 ^ nat (- k))"

definition parseExponent :: "string \<Rightarrow> int option" where
  "parseExponent s =
     (case s of
        [] \<Rightarrow> Some 0
      | c # cs \<Rightarrow>
          if c = CHR ''e'' \<or> c = CHR ''E''
          then (case splitSign cs of (neg, ds) \<Rightarrow>
                  if ds \<noteq> [] \<and> list_all isDigit ds
                  then Some (if neg then - int (digitsVal ds) else int (digitsVal ds))
                  else None)
          else None)"

definition parseDecimal :: "string \<Rightarrow> real option" where
  "parseDecimal s =
     (let intDigits = takeWhile isDigit s;
          afterInt = dropWhile isDigit s;
          (fracDigits, afterFrac) =
            (case afterInt of
               [] \<Rightarrow> ([], [])
             | c # cs \<Rightarrow> if c = CHR ''.'' then (takeWhile isDigit cs, dropWhile isDigit cs)
                         else ([], afterInt))
      in if intDigits = [] \<and> fracDigits = [] then None
         else (case parseExponent afterFrac of
                 None \<Rightarrow> None
               | Some ex \<Rightarrow>
                   Some (real (digitsVal (intDigits @ fracDigits))
                         * pow10 (ex - int (length fracDigits)))))"

definition float_of_string :: "string \<Rightarrow> error + pyfloat" where
  "float_of_string text =
     (let s = rev (dropWhile isSpace (rev (dropWhile isSpace text)))
      in if \<not> underscoresOk CHR 0x00 s then Inl ValueError
         else
           (case splitSign (filter (\<lambda>c. c \<noteq> CHR ''_'') s) of (neg, body) \<Rightarrow>
              if map lowerChar body = ''inf'' \<or> map lowerChar body = ''infinity''
              then Inr (if neg then NegInf else PosInf)
              else if map lowerChar body = ''nan'' then Inr NaN
              else (case parseDecimal body of
                      None \<Rightarrow> Inl ValueError
                    | Some v \<Rightarrow> Inr (round64 (if neg then - v else v)))))"

subsection \<open>The function\<close>

text \<open>Lines 336--338: the two thresholds.\<close>

definition maxGaps :: "string \<Rightarrow> int \<Rightarrow> int \<Rightarrow> int \<Rightarrow> error + (pyfloat \<times> pyfloat)" where
  "maxGaps maxGapFrac minAlignedBases endPad midPad =
     bindE (unpack2 (twoValuesFromOption maxGapFrac CHR '','')) (\<lambda>(maxEndGapFrac, maxMidGapFrac).
     bindE (float_of_string maxEndGapFrac) (\<lambda>endFrac.
     bindE (float_of_int minAlignedBases) (\<lambda>bases.
     bindE (float_of_int endPad) (\<lambda>endPadF.
     let maxEndGap = pymax (float_mul endFrac bases) (float_mul endPadF (Finite 1))
     in
     bindE (float_of_string maxMidGapFrac) (\<lambda>midFrac.
     bindE (float_of_int minAlignedBases) (\<lambda>bases.
     bindE (float_of_int midPad) (\<lambda>midPadF.
     let maxMidGap = pymax (float_mul midFrac bases) (float_mul midPadF (Finite 2))
     in Inr (maxEndGap, maxMidGap))))))))"

text \<open>Line 342: the coverage intervals of the sequence that overlap the range, in order.\<close>

definition overlapping :: "range list \<Rightarrow> int \<Rightarrow> int \<Rightarrow> range list" where
  "overlapping seqBlocks rangeBeg rangeEnd =
     filter (\<lambda>i. fst i < rangeEnd \<and> snd i > rangeBeg) seqBlocks"

text \<open>
  Lines 345--350: the loop over consecutive coverage intervals \<open>x\<close>, \<open>y\<close>; the result is
  the list of the ranges yielded at the middle gaps and the value of \<^verbatim>\<open>rangeBeg\<close> after the
  loop.
\<close>

fun trimMid ::
  "pyfloat \<Rightarrow> int \<Rightarrow> string \<Rightarrow> int \<Rightarrow> range list
     \<Rightarrow> (string \<times> int \<times> int) list \<times> int" where
  "trimMid maxMidGap midPad seqName rangeBeg (x # y # blocks) =
     (if int_gt_float (fst y - snd x) maxMidGap
      then (case trimMid maxMidGap midPad seqName (fst y - midPad) (y # blocks) of
              (out, rangeBeg') \<Rightarrow> ((seqName, rangeBeg, snd x + midPad) # out, rangeBeg'))
      else trimMid maxMidGap midPad seqName rangeBeg (y # blocks))"
| "trimMid maxMidGap midPad seqName rangeBeg [x] = ([], rangeBeg)"
| "trimMid maxMidGap midPad seqName rangeBeg [] = ([], rangeBeg)"

text \<open>
  The body of the outer loop for one range: \<open>KeyError\<close> if the sequence has no coverage
  entry, \<open>IndexError\<close> at \<^verbatim>\<open>blocks[0]\<close> if no interval overlaps the range.
\<close>

definition trimmedRange ::
  "(string \<rightharpoonup> range list) \<Rightarrow> pyfloat \<Rightarrow> pyfloat \<Rightarrow> int \<Rightarrow> int
     \<Rightarrow> string \<times> int \<times> int \<Rightarrow> error + (string \<times> int \<times> int) list" where
  "trimmedRange coverDict maxEndGap maxMidGap endPad midPad r =
     (case r of (seqName, rangeBeg, rangeEnd) \<Rightarrow>
        case coverDict seqName of
          None \<Rightarrow> Inl KeyError
        | Some seqBlocks \<Rightarrow>
            let blocks = overlapping seqBlocks rangeBeg rangeEnd in
            if blocks = [] then Inl IndexError
            else
              let rangeBeg = (if int_gt_float (fst (hd blocks) - rangeBeg) maxEndGap
                              then fst (hd blocks) - endPad else rangeBeg);
                  (out, rangeBeg) = trimMid maxMidGap midPad seqName rangeBeg blocks;
                  rangeEnd = (if int_gt_float (rangeEnd - snd (last blocks)) maxEndGap
                              then snd (last blocks) + endPad else rangeEnd)
              in Inr (out @ [(seqName, rangeBeg, rangeEnd)]))"

text \<open>The generator, as the list of what it yields when it is consumed to its end.\<close>

definition trimmed ::
  "(string \<times> int \<times> int) list \<Rightarrow> (string \<rightharpoonup> range list) \<Rightarrow> int \<Rightarrow> string
     \<Rightarrow> int \<Rightarrow> int \<Rightarrow> error + (string \<times> int \<times> int) list" where
  "trimmed seqRanges coverDict minAlignedBases maxGapFrac endPad midPad =
     bindE (maxGaps maxGapFrac minAlignedBases endPad midPad) (\<lambda>(maxEndGap, maxMidGap).
     bindE (mapE (trimmedRange coverDict maxEndGap maxMidGap endPad midPad) seqRanges)
       (\<lambda>outs. Inr (concat outs)))"

subsection \<open>What trimming is meant to yield\<close>

text \<open>
  Stated without the loops, for thresholds that are real numbers: the gaps between consecutive
  overlapping coverage intervals that exceed the middle threshold are cut. The range begins
  at the first covered position minus \<open>endPad\<close> if its left flank exceeds the end threshold
  and where it began otherwise, and symmetrically for its end. The pieces begin there and
  \<open>midPad\<close> before the interval after each cut gap, and end \<open>midPad\<close> after the interval
  before each cut gap and at the end of the range.
\<close>

definition cutGaps :: "real \<Rightarrow> range list \<Rightarrow> (range \<times> range) list" where
  "cutGaps maxMidGap blocks =
     filter (\<lambda>(x, y). maxMidGap < real_of_int (fst y - snd x)) (zip blocks (tl blocks))"

definition trimmedSpec ::
  "real \<Rightarrow> real \<Rightarrow> int \<Rightarrow> int \<Rightarrow> range list \<Rightarrow> string \<times> int \<times> int
     \<Rightarrow> (string \<times> int \<times> int) list" where
  "trimmedSpec maxEndGap maxMidGap endPad midPad seqBlocks r =
     (case r of (seqName, rangeBeg, rangeEnd) \<Rightarrow>
        let blocks = filter (\<lambda>i. fst i < rangeEnd \<and> rangeBeg < snd i) seqBlocks;
            newBeg = (if maxEndGap < real_of_int (fst (hd blocks) - rangeBeg)
                      then fst (hd blocks) - endPad else rangeBeg);
            newEnd = (if maxEndGap < real_of_int (rangeEnd - snd (last blocks))
                      then snd (last blocks) + endPad else rangeEnd);
            cuts = cutGaps maxMidGap blocks
        in map (\<lambda>(b, e). (seqName, b, e))
             (zip (newBeg # map (\<lambda>(x, y). fst y - midPad) cuts)
                  (map (\<lambda>(x, y). snd x + midPad) cuts @ [newEnd])))"

section \<open>Rasterising alignments (\<^verbatim>\<open>drawLineForward\<close>, \<^verbatim>\<open>drawLineReverse\<close>, \<^verbatim>\<open>alignmentPixels\<close>)\<close>

text \<open>
  The state of the rasteriser is the list \<^verbatim>\<open>hits\<close> together with a record of the executed
  statements \<^verbatim>\<open>hits[i] |= b\<close>, in order, each as the pair of the cell that was written and
  the bit \<open>b\<close>. The record is never read by the program; it is there so that one can say
  which cells were written, how often, and by which of the two line drawers.
\<close>

type_synonym raster = "int list \<times> (nat \<times> int) list"

text \<open>
  \<^verbatim>\<open>hits[idx] |= b\<close>: a negative index counts from the end of the list, an index outside
  the list raises \<open>IndexError\<close>.
\<close>

definition orAt :: "raster \<Rightarrow> int \<Rightarrow> int \<Rightarrow> error + raster" where
  "orAt st idx b =
     (case st of (hits, writes) \<Rightarrow>
        let n = int (length hits);
            i = (if idx < 0 then idx + n else idx)
        in if 0 \<le> i \<and> i < n
           then Inr (hits[nat i := (hits ! nat i) OR b], writes @ [(nat i, b)])
           else Inl IndexError)"

text \<open>
  The two \<^verbatim>\<open>while True\<close> loops. A call that does not return is \<open>None\<close>.
  \<^verbatim>\<open>divmod\<close> by zero raises \<open>ZeroDivisionError\<close>; for any other divisor Python's floor
  division and remainder are \<open>div\<close> and \<open>mod\<close> on \<open>int\<close>.
\<close>

partial_function (option) drawLineForward ::
  "raster \<Rightarrow> int \<Rightarrow> int \<Rightarrow> int \<Rightarrow> int \<Rightarrow> int \<Rightarrow> (error + raster) option" where
  "drawLineForward st width bp_per_pix beg1 beg2 sz =
     (if bp_per_pix = 0 then Some (Inl ZeroDivisionError)
      else
        let q1 = beg1 div bp_per_pix; r1 = beg1 mod bp_per_pix;
            q2 = beg2 div bp_per_pix; r2 = beg2 mod bp_per_pix
        in case orAt st (q2 * width + q1) 1 of
             Inl e \<Rightarrow> Some (Inl e)
           | Inr st' \<Rightarrow>
               let next_pix = min (bp_per_pix - r1) (bp_per_pix - r2)
               in if next_pix \<ge> sz then Some (Inr st')
                  else drawLineForward st' width bp_per_pix
                         (beg1 + next_pix) (beg2 + next_pix) (sz - next_pix))"










text \<open>
  The cells of the diagonal of \<open>n\<close> pixels that starts at column \<open>beg1\<close> and row
  \<open>beg2\<close> of a grid of the given width.
\<close>

definition diagonalCells :: "int \<Rightarrow> int \<Rightarrow> int \<Rightarrow> nat \<Rightarrow> nat list" where
  "diagonalCells width beg1 beg2 n =
     map (\<lambda>k. nat ((beg2 + int k) * width + (beg1 + int k))) [0..<n]"

section \<open>Properties of cropping\<close>

lemma clipBlocks_Cons:
  "clipBlocks cb1 ce1 cb2 ce2 (b # blocks) =
     (case clipOne cb1 ce1 cb2 ce2 b of
        None \<Rightarrow> clipBlocks cb1 ce1 cb2 ce2 blocks
      | Some ob \<Rightarrow> ob # clipBlocks cb1 ce1 cb2 ce2 blocks)"
  by (cases b) (simp add: clipOne_def Let_def)

lemma clipOne_inside:
  assumes "clipOne cb1 ce1 cb2 ce2 (beg1, beg2, sz) = Some (o1, o2, osz)"
  shows "osz > 0 \<and> cb1 \<le> o1 \<and> o1 + osz \<le> ce1 \<and> cb2 \<le> o2 \<and> o2 + osz \<le> ce2
         \<and> o2 - o1 = beg2 - beg1 \<and> beg1 \<le> o1 \<and> o1 + osz \<le> beg1 + sz"
  using assms unfolding clipOne_def prod.case
  apply (simp only: split: if_splits)
    apply (simp_all only: option.inject prod.inject option.distinct)
  by (elim conjE, linarith)

lemma clipOne_None:
  assumes "clipOne cb1 ce1 cb2 ce2 (beg1, beg2, sz) = None"
  shows "\<not> (\<exists>t. 0 \<le> t \<and> t < sz \<and> cb1 \<le> beg1 + t \<and> beg1 + t < ce1 \<and> cb2 \<le> beg2 + t \<and> beg2 + t < ce2)"
  using assms unfolding clipOne_def prod.case
  apply (simp only: split: if_splits)
    apply (simp_all only: option.distinct)
  by (intro notI, elim exE conjE, linarith)+

lemma clipOne_cells:
  assumes "clipOne cb1 ce1 cb2 ce2 b = Some ob"
  shows "cells ob = cells b \<inter> ({cb1..<ce1} \<times> {cb2..<ce2})"
proof -
  obtain beg1 beg2 sz where b: "b = (beg1, beg2, sz)" by (cases b) auto
  obtain o1 o2 osz where ob: "ob = (o1, o2, osz)" by (cases ob) auto
  let ?b1 = "max cb1 beg1" and ?e1 = "min ce1 (beg1 + sz)"
  let ?b2 = "max cb2 (?b1 + (beg2 - beg1))" and ?e2 = "min ce2 (?e1 + (beg2 - beg1))"
  have o: "o1 = ?b2 - (beg2 - beg1) \<and> o2 = ?b2 \<and> osz = ?e2 - ?b2"
    using assms unfolding clipOne_def b ob prod.case
    apply (simp only: split: if_splits)
      apply (simp_all only: option.inject prod.inject option.distinct)
    by (elim conjE, intro conjI, simp_all only:)
  show ?thesis
  proof (intro set_eqI iffI)
    fix p assume "p \<in> cells ob"
    then obtain t where t: "p = (o1 + t, o2 + t)" "0 \<le> t" "t < osz"
      unfolding cells_def ob by auto
    let ?u = "o1 + t - beg1"
    have "p = (beg1 + ?u, beg2 + ?u) \<and> 0 \<le> ?u \<and> ?u < sz
          \<and> cb1 \<le> o1 + t \<and> o1 + t < ce1 \<and> cb2 \<le> o2 + t \<and> o2 + t < ce2"
      using t(2,3) o unfolding t(1) prod.inject by (intro conjI; linarith)
    then show "p \<in> cells b \<inter> ({cb1..<ce1} \<times> {cb2..<ce2})"
      unfolding cells_def b t(1) by auto
  next
    fix p assume "p \<in> cells b \<inter> ({cb1..<ce1} \<times> {cb2..<ce2})"
    then obtain t where t: "p = (beg1 + t, beg2 + t)" "0 \<le> t" "t < sz"
       "cb1 \<le> beg1 + t" "beg1 + t < ce1" "cb2 \<le> beg2 + t" "beg2 + t < ce2"
      unfolding cells_def b by auto
    let ?u = "beg1 + t - o1"
    have "p = (o1 + ?u, o2 + ?u) \<and> 0 \<le> ?u \<and> ?u < osz"
      using t(2-) o unfolding t(1) prod.inject by (intro conjI; linarith)
    then show "p \<in> cells ob"
      unfolding cells_def ob by auto
  qed
qed

lemma clipBlocks_map_filter:
  "clipBlocks cb1 ce1 cb2 ce2 blocks = List.map_filter (clipOne cb1 ce1 cb2 ce2) blocks"
  by (induction blocks) (simp_all add: clipBlocks_Cons map_filter_simps split: option.splits)

lemma set_clipBlocks:
  "set (clipBlocks cb1 ce1 cb2 ce2 blocks) = {ob. \<exists>b \<in> set blocks. clipOne cb1 ce1 cb2 ce2 b = Some ob}"
  by (induction blocks) (auto simp: clipBlocks_Cons split: option.splits)

lemma monotonicBlocks_Cons:
  "monotonicBlocks ((beg1, beg2, sz) # bs) \<longleftrightarrow>
     sz > 0 \<and> (\<forall>(c1, c2, t) \<in> set bs. beg1 + sz \<le> c1 \<and> beg2 + sz \<le> c2) \<and> monotonicBlocks bs"
proof (induction bs arbitrary: beg1 beg2 sz)
  case Nil
  show ?case by simp
next
  case (Cons c bs)
  obtain c1 c2 t where c: "c = (c1, c2, t)" by (cases c) auto
  show ?case
    unfolding c monotonicBlocks.simps Cons.IH[of c1 c2 t]
    by (auto; fastforce)
qed

lemma monotonicBlocks_clipBlocks:
  "monotonicBlocks blocks \<Longrightarrow> monotonicBlocks (clipBlocks cb1 ce1 cb2 ce2 blocks)"
proof (induction blocks)
  case Nil
  show ?case by simp
next
  case (Cons b blocks)
  obtain beg1 beg2 sz where b: "b = (beg1, beg2, sz)" by (cases b) auto
  from Cons.prems have sz: "sz > 0"
    and later: "\<And>c1 c2 t. (c1, c2, t) \<in> set blocks \<Longrightarrow> beg1 + sz \<le> c1 \<and> beg2 + sz \<le> c2"
    and mono: "monotonicBlocks blocks"
    unfolding b monotonicBlocks_Cons by auto
  have IH: "monotonicBlocks (clipBlocks cb1 ce1 cb2 ce2 blocks)"
    using Cons.IH mono by simp
  show ?case
  proof (cases "clipOne cb1 ce1 cb2 ce2 b")
    case None
    then show ?thesis using IH by (simp add: clipBlocks_Cons)
  next
    case (Some ob)
    obtain o1 o2 osz where ob: "ob = (o1, o2, osz)" by (cases ob) auto
    note h = clipOne_inside[OF Some[unfolded b ob]]
    have "\<forall>(d1, d2, u) \<in> set (clipBlocks cb1 ce1 cb2 ce2 blocks). o1 + osz \<le> d1 \<and> o2 + osz \<le> d2"
    proof (clarify)
      fix d1 d2 u assume "(d1, d2, u) \<in> set (clipBlocks cb1 ce1 cb2 ce2 blocks)"
      then obtain c where c: "c \<in> set blocks" "clipOne cb1 ce1 cb2 ce2 c = Some (d1, d2, u)"
        unfolding set_clipBlocks by auto
      obtain c1 c2 t where ceq: "c = (c1, c2, t)" by (cases c) auto
      note hc = clipOne_inside[OF c(2)[unfolded ceq]]
      from later[of c1 c2 t] c(1) ceq have "beg1 + sz \<le> c1 \<and> beg2 + sz \<le> c2" by simp
      with h hc show "o1 + osz \<le> d1 \<and> o2 + osz \<le> d2" by linarith
    qed
    with h IH show ?thesis
      unfolding clipBlocks_Cons Some option.case ob monotonicBlocks_Cons by simp
  qed
qed

lemma monotonicBlocks_nth:
  "monotonicBlocks bs \<Longrightarrow> i < j \<Longrightarrow> j < length bs \<Longrightarrow>
     (case bs ! i of (a1, a2, s) \<Rightarrow> case bs ! j of (c1, c2, t) \<Rightarrow> a1 + s \<le> c1 \<and> a2 + s \<le> c2)"
proof (induction bs arbitrary: i j)
  case Nil
  then show ?case by simp
next
  case (Cons b bs)
  obtain beg1 beg2 sz where b: "b = (beg1, beg2, sz)" by (cases b) auto
  from Cons.prems(1) have later: "\<forall>(c1, c2, t) \<in> set bs. beg1 + sz \<le> c1 \<and> beg2 + sz \<le> c2"
    and mono: "monotonicBlocks bs"
    unfolding b monotonicBlocks_Cons by auto
  from Cons.prems(2) obtain j' where j: "j = Suc j'" by (cases j) auto
  show ?case
  proof (cases i)
    case 0
    from Cons.prems(3) j have "bs ! j' \<in> set bs" by simp
    with later show ?thesis unfolding 0 j b by (auto split: prod.splits)
  next
    case (Suc i')
    with Cons.prems j have "i' < j'" "j' < length bs" by auto
    from Cons.IH[OF mono this] show ?thesis unfolding Suc j by simp
  qed
qed

lemma croppedBlocks_Cons:
  "croppedBlocks ((headBeg1, headBeg2, headSize) # rest) ranges1 ranges2 =
     Inr (concat (map (\<lambda>r1. concat (map (croppedPair ((headBeg1, headBeg2, headSize) # rest)
            headBeg1 headBeg2 r1) ranges2)) ranges1))"
  by (simp add: croppedBlocks_def)

lemma croppedPair_pieceOf:
  assumes "ob \<in> set (croppedPair blocks h1 h2 r1 r2)"
  shows "\<exists>ib \<in> set blocks. pieceOf ob ib"
proof -
  obtain cb1 ce1 where c1: "cropRange h1 r1 = (cb1, ce1)" by (cases "cropRange h1 r1") auto
  obtain cb2 ce2 where c2: "cropRange h2 r2 = (cb2, ce2)" by (cases "cropRange h2 r2") auto
  from assms obtain ib where ib: "ib \<in> set blocks" "clipOne cb1 ce1 cb2 ce2 ib = Some ob"
    unfolding croppedPair_def c1 c2 prod.case set_clipBlocks by auto
  obtain beg1 beg2 sz where b: "ib = (beg1, beg2, sz)" by (cases ib) auto
  obtain o1 o2 osz where ob: "ob = (o1, o2, osz)" by (cases ob) auto
  from clipOne_inside[OF ib(2)[unfolded b ob]] have "pieceOf ob ib"
    unfolding b ob pieceOf_def by simp
  with ib(1) show ?thesis by blast
qed

text \<open>
  Claim C10. Every block yielded by \<open>croppedBlocks\<close> is a piece of one of the input blocks:
  its offset \<open>begOut2 - begOut1\<close> equals \<open>beg2 - beg1\<close> of that block, and it lies inside
  the extent of that block. Cropping shortens blocks and never shifts them off their diagonal.
\<close>
theorem croppedBlocks_same_diagonal:
  assumes "croppedBlocks blocks ranges1 ranges2 = Inr out"
  shows "\<forall>ob \<in> set out. \<exists>ib \<in> set blocks. pieceOf ob ib"
proof
  fix ob assume ob: "ob \<in> set out"
  from assms obtain h1 h2 hs rest where blocks: "blocks = (h1, h2, hs) # rest"
    by (cases blocks) (auto simp: croppedBlocks_def)
  from assms ob obtain r1 r2 where "ob \<in> set (croppedPair blocks h1 h2 r1 r2)"
    unfolding blocks croppedBlocks_Cons by auto
  then show "\<exists>ib \<in> set blocks. pieceOf ob ib" by (rule croppedPair_pieceOf)
qed

theorem croppedBlocks_same_diagonal_witness:
  "croppedBlocks [(0, 100, 10), (20, 130, 10)] [(5, 25)] [(0, 135)]
      = Inr [(5, 105, 5), (20, 130, 5)]
   \<and> (\<exists>ib \<in> set [(0, 100, 10), (20, 130, 10)]. pieceOf (5, 105, 5) ib)
   \<and> (\<exists>ib \<in> set [(0, 100, 10), (20, 130, 10)]. pieceOf (20, 130, 5) ib)"
proof -
  have h: "croppedBlocks [(0, 100, 10), (20, 130, 10)] [(5, 25)] [(0, 135)]
      = Inr [(5, 105, 5), (20, 130, 5)]"
    by (simp add: croppedBlocks_def croppedPair_def cropRange_def)
  note t = croppedBlocks_same_diagonal[OF h]
  have m1: "(5, 105, 5) \<in> set [(5, 105, 5), (20, 130, 5 :: int)]" by simp
  have m2: "(20, 130, 5) \<in> set [(5, 105, 5), (20, 130, 5 :: int)]" by simp
  from h t[rule_format, OF m1] t[rule_format, OF m2] show ?thesis by (intro conjI)
qed

text \<open>
  Claim C6. For a non-empty block list that is monotonic increasing in both coordinates with
  positive sizes, and any pair of requested ranges \<open>r1 = (rangeBeg1, rangeEnd1)\<close>,
  \<open>r2 = (rangeBeg2, rangeEnd2)\<close>: the crop interval of a sequence is the requested range
  itself when the first block begins at a non-negative coordinate of that sequence, and the
  range negated and swapped, \<open>[- rangeEnd, - rangeBeg)\<close>, when it begins at a negative one
  (reverse strand). \<open>croppedBlocks\<close> yields the concatenation of what it yields per range
  pair; every block yielded for the pair has positive size and lies wholly inside both crop
  intervals; each yielded block covers exactly the aligned positions of one input block that
  fall inside the crop box, and an input block yields nothing exactly when none of its
  positions falls inside (empty clips are dropped); and no two blocks yielded for the pair
  overlap in either coordinate.
\<close>

theorem croppedBlocks_inside_disjoint:
  assumes "blocks = (headBeg1, headBeg2, headSize) # rest"
    and "monotonicBlocks blocks"
    and "cropBeg1 = (if headBeg1 < 0 then - rangeEnd1 else rangeBeg1)"
    and "cropEnd1 = (if headBeg1 < 0 then - rangeBeg1 else rangeEnd1)"
    and "cropBeg2 = (if headBeg2 < 0 then - rangeEnd2 else rangeBeg2)"
    and "cropEnd2 = (if headBeg2 < 0 then - rangeBeg2 else rangeEnd2)"
    and "out = croppedPair blocks headBeg1 headBeg2 (rangeBeg1, rangeEnd1) (rangeBeg2, rangeEnd2)"
  shows "croppedBlocks blocks ranges1 ranges2 =
           Inr (concat (map (\<lambda>r1. concat (map (croppedPair blocks headBeg1 headBeg2 r1) ranges2)) ranges1))
       \<and> (\<forall>(b1, b2, sz) \<in> set out.
             sz > 0 \<and> cropBeg1 \<le> b1 \<and> b1 + sz \<le> cropEnd1 \<and> cropBeg2 \<le> b2 \<and> b2 + sz \<le> cropEnd2)
       \<and> (\<forall>ob \<in> set out. \<exists>ib \<in> set blocks.
             cells ob = cells ib \<inter> ({cropBeg1..<cropEnd1} \<times> {cropBeg2..<cropEnd2}))
       \<and> (\<forall>ib \<in> set blocks.
             cells ib \<inter> ({cropBeg1..<cropEnd1} \<times> {cropBeg2..<cropEnd2}) \<noteq> {} \<longrightarrow>
             (\<exists>ob \<in> set out. cells ob = cells ib \<inter> ({cropBeg1..<cropEnd1} \<times> {cropBeg2..<cropEnd2})))
       \<and> (\<forall>i j. i < j \<and> j < length out \<longrightarrow>
             (case out ! i of (a1, a2, s) \<Rightarrow> case out ! j of (c1, c2, t) \<Rightarrow>
                a1 + s \<le> c1 \<and> a2 + s \<le> c2))"
proof -
  have out: "out = clipBlocks cropBeg1 cropEnd1 cropBeg2 cropEnd2 blocks"
    unfolding assms(7) croppedPair_def cropRange_def assms(3-6) by simp
  have p0: "croppedBlocks blocks ranges1 ranges2 =
           Inr (concat (map (\<lambda>r1. concat (map (croppedPair blocks headBeg1 headBeg2 r1) ranges2)) ranges1))"
    unfolding assms(1) by (rule croppedBlocks_Cons)
  have p1: "\<forall>(b1, b2, sz) \<in> set out.
             sz > 0 \<and> cropBeg1 \<le> b1 \<and> b1 + sz \<le> cropEnd1 \<and> cropBeg2 \<le> b2 \<and> b2 + sz \<le> cropEnd2"
  proof (clarify)
    fix b1 b2 sz assume "(b1, b2, sz) \<in> set out"
    then obtain ib where ib: "clipOne cropBeg1 cropEnd1 cropBeg2 cropEnd2 ib = Some (b1, b2, sz)"
      unfolding out set_clipBlocks by auto
    obtain beg1 beg2 s where b: "ib = (beg1, beg2, s)" by (cases ib) auto
    from clipOne_inside[OF ib[unfolded b]]
    show "sz > 0 \<and> cropBeg1 \<le> b1 \<and> b1 + sz \<le> cropEnd1 \<and> cropBeg2 \<le> b2 \<and> b2 + sz \<le> cropEnd2"
      by simp
  qed
  have p2: "\<forall>ob \<in> set out. \<exists>ib \<in> set blocks.
             cells ob = cells ib \<inter> ({cropBeg1..<cropEnd1} \<times> {cropBeg2..<cropEnd2})"
  proof
    fix ob assume "ob \<in> set out"
    then obtain ib where ib: "ib \<in> set blocks" "clipOne cropBeg1 cropEnd1 cropBeg2 cropEnd2 ib = Some ob"
      unfolding out set_clipBlocks by auto
    from clipOne_cells[OF ib(2)] ib(1)
    show "\<exists>ib \<in> set blocks. cells ob = cells ib \<inter> ({cropBeg1..<cropEnd1} \<times> {cropBeg2..<cropEnd2})"
      by (rule_tac x = ib in bexI)
  qed
  have p3: "\<forall>ib \<in> set blocks.
             cells ib \<inter> ({cropBeg1..<cropEnd1} \<times> {cropBeg2..<cropEnd2}) \<noteq> {} \<longrightarrow>
             (\<exists>ob \<in> set out. cells ob = cells ib \<inter> ({cropBeg1..<cropEnd1} \<times> {cropBeg2..<cropEnd2}))"
  proof (intro ballI impI)
    fix ib assume ib: "ib \<in> set blocks"
      and ne: "cells ib \<inter> ({cropBeg1..<cropEnd1} \<times> {cropBeg2..<cropEnd2}) \<noteq> {}"
    obtain beg1 beg2 s where b: "ib = (beg1, beg2, s)" by (cases ib) auto
    from ne have "\<exists>t. 0 \<le> t \<and> t < s \<and> cropBeg1 \<le> beg1 + t \<and> beg1 + t < cropEnd1
        \<and> cropBeg2 \<le> beg2 + t \<and> beg2 + t < cropEnd2"
      unfolding b cells_def by auto
    with clipOne_None[of cropBeg1 cropEnd1 cropBeg2 cropEnd2 beg1 beg2 s]
    obtain ob where ob: "clipOne cropBeg1 cropEnd1 cropBeg2 cropEnd2 ib = Some ob"
      unfolding b by (cases "clipOne cropBeg1 cropEnd1 cropBeg2 cropEnd2 (beg1, beg2, s)") simp_all
    with ib have "ob \<in> set out" unfolding out set_clipBlocks by simp (rule_tac x = ib in bexI)
    with clipOne_cells[OF ob]
    show "\<exists>ob \<in> set out. cells ob = cells ib \<inter> ({cropBeg1..<cropEnd1} \<times> {cropBeg2..<cropEnd2})"
      by (rule_tac x = ob in bexI)
  qed
  have "monotonicBlocks out"
    unfolding out using assms(2) by (rule monotonicBlocks_clipBlocks)
  then have p4: "\<forall>i j. i < j \<and> j < length out \<longrightarrow>
             (case out ! i of (a1, a2, s) \<Rightarrow> case out ! j of (c1, c2, t) \<Rightarrow>
                a1 + s \<le> c1 \<and> a2 + s \<le> c2)"
    by (intro allI impI, elim conjE) (rule monotonicBlocks_nth)
  from p0 p1 p2 p3 p4 show ?thesis by (intro conjI)
qed

theorem croppedBlocks_inside_disjoint_witness:
  "monotonicBlocks [(- 30, 100, 10), (- 15, 120, 10)]
   \<and> croppedPair [(- 30, 100, 10), (- 15, 120, 10)] (- 30) 100 (12, 25) (0, 135)
       = [(- 25, 105, 5), (- 15, 120, 3)]
   \<and> croppedBlocks [(- 30, 100, 10), (- 15, 120, 10)] [(12, 25)] [(0, 135)]
       = Inr [(- 25, 105, 5), (- 15, 120, 3)]
   \<and> (\<exists>ib \<in> set [(- 30, 100, 10), (- 15, 120, 10)].
         cells (- 25, 105, 5) = cells ib \<inter> ({- 25..<- 12} \<times> {0..<135}))
   \<and> (\<exists>ib \<in> set [(- 30, 100, 10), (- 15, 120, 10)].
         cells (- 15, 120, 3) = cells ib \<inter> ({- 25..<- 12} \<times> {0..<135}))"
proof -
  have h1: "[(- 30, 100, 10), (- 15, 120, 10)]
              = (- 30, 100, 10) # [(- 15 :: int, 120 :: int, 10 :: int)]"
    by simp
  have h2: "monotonicBlocks [(- 30, 100, 10), (- 15, 120, 10)]" by simp
  have h3: "(- 25 :: int) = (if (- 30 :: int) < 0 then - 25 else 12)" by simp
  have h4: "(- 12 :: int) = (if (- 30 :: int) < 0 then - 12 else 25)" by simp
  have h5: "(0 :: int) = (if (100 :: int) < 0 then - 135 else 0)" by simp
  have h6: "(135 :: int) = (if (100 :: int) < 0 then - 0 else 135)" by simp
  have h7: "[(- 25, 105, 5), (- 15, 120, 3)]
              = croppedPair [(- 30, 100, 10), (- 15, 120, 10)] (- 30) 100 (12, 25) (0, 135)"
    by (simp add: croppedPair_def cropRange_def)
  have h8: "croppedBlocks [(- 30, 100, 10), (- 15, 120, 10)] [(12, 25)] [(0, 135)]
              = Inr [(- 25, 105, 5), (- 15, 120, 3)]"
    by (simp add: croppedBlocks_def croppedPair_def cropRange_def)
  note t = croppedBlocks_inside_disjoint[OF h1 h2 h3 h4 h5 h6 h7, of "[(12, 25)]" "[(0, 135)]"]
  from t have t1: "\<forall>ob \<in> set [(- 25, 105, 5), (- 15, 120, 3)].
       \<exists>ib \<in> set [(- 30, 100, 10), (- 15, 120, 10)].
         cells ob = cells ib \<inter> ({- 25..<- 12} \<times> {0..<135})"
    by (elim conjE)
  have m1: "(- 25, 105, 5) \<in> set [(- 25, 105, 5), (- 15, 120, 3 :: int)]" by simp
  have m2: "(- 15, 120, 3) \<in> set [(- 25, 105, 5), (- 15, 120, 3 :: int)]" by simp
  from h2 h7[symmetric] h8 t1[rule_format, OF m1] t1[rule_format, OF m2]
  show ?thesis by (intro conjI)
qed

section \<open>Properties of merging\<close>

lemma covered_Nil [simp]: "covered [] = {}"
  by (simp add: covered_def)

lemma covered_Cons [simp]: "covered ((b, e) # rs) = {b..<e} \<union> covered rs"
  by (simp add: covered_def)

lemma totalLength_Nil [simp]: "totalLength [] = 0"
  by (simp add: totalLength_def)

lemma totalLength_Cons [simp]: "totalLength ((b, e) # rs) = (e - b) + totalLength rs"
  by (simp add: totalLength_def)

lemma mergeLoop_invariant:
  assumes "oldBeg < maxEnd"
    and "\<forall>r \<in> set ranges. oldBeg \<le> fst r \<and> fst r < snd r"
    and "sorted (map fst ranges)"
  shows "(\<forall>r \<in> set (mergeLoop oldBeg maxEnd ranges). oldBeg \<le> fst r \<and> fst r < snd r)
       \<and> sorted_wrt apart (mergeLoop oldBeg maxEnd ranges)
       \<and> covered (mergeLoop oldBeg maxEnd ranges) = {oldBeg..<maxEnd} \<union> covered ranges
       \<and> totalLength (mergeLoop oldBeg maxEnd ranges) \<le> (maxEnd - oldBeg) + totalLength ranges"
  using assms
proof (induction ranges arbitrary: oldBeg maxEnd)
  case Nil
  then show ?case by simp
next
  case (Cons r ranges)
  obtain b e where r: "r = (b, e)" by (cases r) auto
  from Cons.prems have ob: "oldBeg < maxEnd" and be: "oldBeg \<le> b" "b < e"
    and rest: "\<forall>r \<in> set ranges. oldBeg \<le> fst r \<and> fst r < snd r"
    and restb: "\<forall>r \<in> set ranges. b \<le> fst r \<and> fst r < snd r"
    and srt: "sorted (map fst ranges)"
    unfolding r by auto
  show ?case
  proof (cases "b > maxEnd")
    case True
    note IH = Cons.IH[OF be(2) restb srt]
    from IH have lower: "\<forall>x \<in> set (mergeLoop b e ranges). b \<le> fst x \<and> fst x < snd x"
      and sw: "sorted_wrt apart (mergeLoop b e ranges)"
      and cov: "covered (mergeLoop b e ranges) = {b..<e} \<union> covered ranges"
      and len: "totalLength (mergeLoop b e ranges) \<le> (e - b) + totalLength ranges"
      by simp_all
    have eq: "mergeLoop oldBeg maxEnd (r # ranges) = (oldBeg, maxEnd) # mergeLoop b e ranges"
      unfolding r using True by simp
    have c1: "\<forall>x \<in> set ((oldBeg, maxEnd) # mergeLoop b e ranges). oldBeg \<le> fst x \<and> fst x < snd x"
      using lower ob be by auto
    have c2: "sorted_wrt apart ((oldBeg, maxEnd) # mergeLoop b e ranges)"
      using sw lower True by (auto simp: apart_def)
    have c3: "covered ((oldBeg, maxEnd) # mergeLoop b e ranges)
                = {oldBeg..<maxEnd} \<union> covered (r # ranges)"
      unfolding r using cov by simp
    have c4: "totalLength ((oldBeg, maxEnd) # mergeLoop b e ranges)
                \<le> (maxEnd - oldBeg) + totalLength (r # ranges)"
      unfolding r using len by simp
    from c1 c2 c3 c4 show ?thesis unfolding eq by (intro conjI)
  next
    case False
    show ?thesis
    proof (cases "e > maxEnd")
      case True
      from ob True have oe: "oldBeg < e" by simp
      note IH = Cons.IH[OF oe rest srt]
      have eq: "mergeLoop oldBeg maxEnd (r # ranges) = mergeLoop oldBeg e ranges"
        unfolding r using False True by simp
      have u: "{oldBeg..<e} = {oldBeg..<maxEnd} \<union> {b..<e}"
        using False True be ob by auto
      have c3: "covered (mergeLoop oldBeg e ranges) = {oldBeg..<maxEnd} \<union> covered (r # ranges)"
        using IH unfolding r covered_Cons u by (simp add: Un_assoc)
      have c4: "totalLength (mergeLoop oldBeg e ranges)
                  \<le> (maxEnd - oldBeg) + totalLength (r # ranges)"
        using IH False be unfolding r totalLength_Cons by linarith
      from IH c3 c4 show ?thesis unfolding eq by simp
    next
      case False2: False
      note IH = Cons.IH[OF ob rest srt]
      have eq: "mergeLoop oldBeg maxEnd (r # ranges) = mergeLoop oldBeg maxEnd ranges"
        unfolding r using False False2 by simp
      have u: "{oldBeg..<maxEnd} \<union> {b..<e} = {oldBeg..<maxEnd}"
        using False2 be by auto
      have c3: "covered (mergeLoop oldBeg maxEnd ranges)
                  = {oldBeg..<maxEnd} \<union> covered (r # ranges)"
        using IH u unfolding r covered_Cons by (simp add: Un_assoc[symmetric])
      have c4: "totalLength (mergeLoop oldBeg maxEnd ranges)
                  \<le> (maxEnd - oldBeg) + totalLength (r # ranges)"
        using IH be unfolding r totalLength_Cons by linarith
      from IH c3 c4 show ?thesis unfolding eq by simp
    qed
  qed
qed

lemma mergeLoop_fixed:
  "sorted_wrt apart ((b, e) # rs) \<Longrightarrow> \<forall>r \<in> set ((b, e) # rs). fst r < snd r
     \<Longrightarrow> mergeLoop b e rs = (b, e) # rs"
proof (induction rs arbitrary: b e)
  case Nil
  show ?case by simp
next
  case (Cons r rs)
  obtain b' e' where r: "r = (b', e')" by (cases r) auto
  from Cons.prems have gt: "e < b'"
    unfolding r by (simp add: apart_def)
  from Cons.prems have sw: "sorted_wrt apart ((b', e') # rs)"
    and pos: "\<forall>r \<in> set ((b', e') # rs). fst r < snd r"
    unfolding r by simp_all
  from Cons.IH[OF sw pos] gt show ?case unfolding r by simp
qed

lemma apart_sorted:
  "sorted_wrt apart rs \<Longrightarrow> \<forall>r \<in> set rs. fst r < snd r \<Longrightarrow> sorted rs"
proof (induction rs)
  case Nil
  show ?case by simp
next
  case (Cons r rs)
  then have "\<forall>y \<in> set rs. r \<le> y"
    by (auto simp: apart_def less_eq_prod_def)
  with Cons show ?case by simp
qed

lemma sorted_map_fst: "sorted (rs :: range list) \<Longrightarrow> sorted (map fst rs)"
  by (induction rs) (auto simp: less_eq_prod_def)

lemma sort_nonempty: "rs \<noteq> [] \<Longrightarrow> sort rs \<noteq> []"
  by (metis length_sort length_0_conv)

lemma covered_set: "set rs = set rs' \<Longrightarrow> covered rs = covered rs'"
  by (simp add: covered_def)

lemma totalLength_mset: "mset rs = mset rs' \<Longrightarrow> totalLength rs = totalLength rs'"
  unfolding totalLength_def by (metis mset_map sum_mset_sum_list)

lemma mergeLoop_nonempty: "mergeLoop oldBeg maxEnd ranges \<noteq> []"
  by (induction ranges arbitrary: oldBeg maxEnd) (auto split: if_splits)

text \<open>
  Claim C7. For a non-empty list \<open>R\<close> of intervals with begin < end, sorting and then
  \<open>mergedRanges\<close> returns a list \<open>M\<close> that is sorted, whose intervals are non-empty and
  pairwise separated by a gap (disjoint, and not even adjacent), that covers exactly the
  positions \<open>R\<close> covers, on which merging again changes nothing, and whose total length is
  at most the summed length of \<open>R\<close>.
\<close>

theorem merge_sorted_cover:
  assumes "R \<noteq> []" and "\<forall>(beg, en) \<in> set R. beg < en"
  shows "\<exists>M. mergedRanges (sort R) = Inr M
           \<and> sorted M
           \<and> (\<forall>(beg, en) \<in> set M. beg < en)
           \<and> (\<forall>i j. i < j \<and> j < length M \<longrightarrow> snd (M ! i) < fst (M ! j))
           \<and> covered M = covered R
           \<and> mergedRanges (sort M) = Inr M
           \<and> totalLength M \<le> totalLength R"
proof -
  from assms(1) obtain b e rest where S: "sort R = (b, e) # rest"
    using sort_nonempty[of R] by (cases "sort R") auto
  define M where "M = mergeLoop b e rest"
  have set: "set (sort R) = set R" by simp
  have pos: "\<forall>r \<in> set ((b, e) # rest). fst r < snd r"
    using assms(2) unfolding S[symmetric] set by auto
  then have be: "b < e" by simp
  have "sorted (map fst ((b, e) # rest))"
    unfolding S[symmetric] by (rule sorted_map_fst) simp
  then have srt: "sorted (map fst rest)" and "\<forall>r \<in> set rest. b \<le> fst r"
    by simp_all
  then have low: "\<forall>r \<in> set rest. b \<le> fst r \<and> fst r < snd r"
    using pos by simp
  note inv = mergeLoop_invariant[OF be low srt, folded M_def]
  have m: "mergedRanges (sort R) = Inr M"
    unfolding S mergedRanges_def M_def using be by simp
  from inv have mpos: "\<forall>r \<in> set M. fst r < snd r" by simp
  from inv have sw: "sorted_wrt apart M" by simp
  from inv have cov: "covered M = {b..<e} \<union> covered rest" by simp
  from inv have len: "totalLength M \<le> (e - b) + totalLength rest" by simp
  have sM: "sorted M" using sw mpos by (rule apart_sorted)
  have c2: "\<forall>(beg, en) \<in> set M. beg < en"
  proof (clarify)
    fix beg en assume "(beg, en) \<in> set M"
    with mpos have "fst (beg, en) < snd (beg, en)" by (rule bspec)
    then show "beg < en" by simp
  qed
  have c3: "\<forall>i j. i < j \<and> j < length M \<longrightarrow> snd (M ! i) < fst (M ! j)"
    using sw unfolding sorted_wrt_iff_nth_less apart_def by simp
  have "covered ((b, e) # rest) = covered R"
    unfolding S[symmetric] by (rule covered_set) simp
  then have c4: "covered M = covered R"
    using cov by simp
  have ne: "M \<noteq> []" unfolding M_def by (rule mergeLoop_nonempty)
  then obtain b' e' rest' where M: "M = (b', e') # rest'"
    by (cases M) auto
  from mpos have be': "b' < e'" unfolding M by simp
  have "mergedRanges M = Inr (mergeLoop b' e' ((b', e') # rest'))"
    unfolding M mergedRanges_def by simp
  also have "mergeLoop b' e' ((b', e') # rest') = mergeLoop b' e' rest'"
    using be' by simp
  also have "\<dots> = (b', e') # rest'"
    using sw mpos unfolding M by (rule mergeLoop_fixed)
  finally have "mergedRanges M = Inr M" unfolding M .
  then have c5: "mergedRanges (sort M) = Inr M"
    using sorted_sort_id[OF sM] by simp
  have "totalLength ((b, e) # rest) = totalLength R"
    unfolding S[symmetric] by (rule totalLength_mset) simp
  then have c6: "totalLength M \<le> totalLength R" using len by simp
  from m sM c2 c3 c4 c5 c6 show ?thesis by (intro exI[of _ M] conjI)
qed

theorem merge_sorted_cover_witness:
  "[(5, 8), (1, 3), (2, 6), (10, 12)] \<noteq> ([] :: range list)
   \<and> mergedRanges (sort [(5, 8), (1, 3), (2, 6), (10, 12)]) = Inr [(1, 8), (10, 12)]
   \<and> covered [(1, 8), (10, 12)] = covered [(5, 8), (1, 3), (2, 6), (10, 12)]
   \<and> mergedRanges (sort [(1, 8), (10, 12)]) = Inr [(1, 8), (10, 12)]
   \<and> totalLength [(1, 8), (10, 12)] \<le> totalLength [(5, 8), (1, 3), (2, 6), (10, 12)]"
proof -
  have h1: "[(5, 8), (1, 3), (2, 6), (10, 12)] \<noteq> ([] :: range list)" by simp
  have h2: "\<forall>(beg, en) \<in> set ([(5, 8), (1, 3), (2, 6), (10, 12)] :: range list). beg < en"
    by simp
  have s: "sort [(5, 8), (1, 3), (2, 6), (10, 12)] = [(1, 3), (2, 6), (5, 8), (10 :: int, 12 :: int)]"
    by (simp add: less_eq_prod_def)
  have m: "mergedRanges (sort [(5, 8), (1, 3), (2, 6), (10, 12)]) = Inr [(1, 8), (10, 12)]"
    unfolding s by (simp add: mergedRanges_def)
  from merge_sorted_cover[OF h1 h2] obtain M where
    M: "mergedRanges (sort [(5, 8), (1, 3), (2, 6), (10, 12)]) = Inr M"
    and c: "covered M = covered [(5, 8), (1, 3), (2, 6), (10, 12)]"
    and i: "mergedRanges (sort M) = Inr M"
    and l: "totalLength M \<le> totalLength [(5, 8), (1, 3), (2, 6), (10, 12)]"
    by blast
  from M m have eq: "M = [(1, 8), (10, 12)]" by simp
  from h1 m c i l show ?thesis unfolding eq by (intro conjI)
qed

section \<open>Properties of the scale selection\<close>

lemma div_neg_ceiling: "i div (- S) = - \<lceil>real_of_int i / real_of_int S\<rceil>"
  by (simp add: ceiling_divide_eq_div div_minus_right)

lemma sum_div_neg: "sum_list (map (\<lambda>i. i div (- S)) rangeSizes) = - pixelsUsed rangeSizes S"
  unfolding pixelsUsed_def by (induction rangeSizes) (simp_all add: div_neg_ceiling)

lemma pixelsUsed_ge_real:
  "real_of_int (sum_list rangeSizes) / real_of_int S \<le> real_of_int (pixelsUsed rangeSizes S)"
proof (induction rangeSizes)
  case Nil
  show ?case by (simp add: pixelsUsed_def)
next
  case (Cons a rangeSizes)
  have a: "real_of_int a / real_of_int S \<le> real_of_int \<lceil>real_of_int a / real_of_int S\<rceil>"
    by (rule le_of_int_ceiling)
  have "real_of_int (sum_list (a # rangeSizes)) / real_of_int S
          = real_of_int a / real_of_int S + real_of_int (sum_list rangeSizes) / real_of_int S"
    by (simp add: add_divide_distrib)
  also have "\<dots> \<le> real_of_int \<lceil>real_of_int a / real_of_int S\<rceil>
                    + real_of_int (pixelsUsed rangeSizes S)"
    using a Cons.IH by (rule add_mono)
  also have "\<dots> = real_of_int (pixelsUsed (a # rangeSizes) S)"
    by (simp add: pixelsUsed_def)
  finally show ?case .
qed

lemma pixelsUsed_big:
  "\<forall>s \<in> set rangeSizes. 0 < s \<and> s \<le> S \<Longrightarrow> pixelsUsed rangeSizes S = int (length rangeSizes)"
  unfolding pixelsUsed_def
proof (induction rangeSizes)
  case Nil
  show ?case by simp
next
  case (Cons a rangeSizes)
  then have a: "0 < a" "a \<le> S" by simp_all
  then have "\<lceil>real_of_int a / real_of_int S\<rceil> = 1"
    by (intro ceiling_unique) simp_all
  with Cons show ?case by simp
qed

lemma elem_le_sum:
  "\<forall>s \<in> set rangeSizes. (0::int) < s \<Longrightarrow> x \<in> set rangeSizes \<Longrightarrow> x \<le> sum_list rangeSizes"
proof (induction rangeSizes)
  case Nil
  then show ?case by simp
next
  case (Cons a rangeSizes)
  have nn: "0 \<le> sum_list rangeSizes"
  proof (rule sum_list_nonneg)
    fix y assume "y \<in> set rangeSizes"
    with Cons.prems(1) show "0 \<le> y" by (simp add: less_imp_le)
  qed
  from Cons.prems(1) have pa: "0 < a" and rest: "\<forall>s \<in> set rangeSizes. 0 < s" by simp_all
  show ?case
  proof (cases "x = a")
    case True
    with nn show ?thesis by simp
  next
    case False
    with Cons.prems(2) have "x \<in> set rangeSizes" by simp
    from Cons.IH[OF rest this] pa show ?thesis by simp
  qed
qed

lemma bp_per_pix_loop_least:
  assumes "1 \<le> cur" and "cur \<le> hi" and "pixelsUsed rangeSizes hi \<le> M"
  shows "\<exists>S. bp_per_pix_loop rangeSizes (- M) (- cur) = Some (Inr S)
            \<and> cur \<le> S \<and> pixelsUsed rangeSizes S \<le> M
            \<and> (\<forall>S'. cur \<le> S' \<and> S' < S \<longrightarrow> \<not> pixelsUsed rangeSizes S' \<le> M)"
  using assms
proof (induction "nat (hi - cur)" arbitrary: cur)
  case 0
  then have eq: "cur = hi" by simp
  have "bp_per_pix_loop rangeSizes (- M) (- cur) = Some (Inr cur)"
    using 0 by (subst bp_per_pix_loop.simps) (simp add: sum_div_neg eq)
  with 0 show ?case unfolding eq by auto
next
  case (Suc n)
  show ?case
  proof (cases "pixelsUsed rangeSizes cur \<le> M")
    case True
    have "bp_per_pix_loop rangeSizes (- M) (- cur) = Some (Inr cur)"
      using Suc.prems True by (subst bp_per_pix_loop.simps) (simp add: sum_div_neg)
    with True show ?thesis by auto
  next
    case False
    have step: "bp_per_pix_loop rangeSizes (- M) (- cur)
                  = bp_per_pix_loop rangeSizes (- M) (- (cur + 1))"
      using Suc.prems False by (subst bp_per_pix_loop.simps) (simp add: sum_div_neg)
    from Suc.hyps(2) have n: "n = nat (hi - (cur + 1))" by simp
    from Suc.hyps(2) have le: "cur + 1 \<le> hi" by simp
    from Suc.prems have one: "1 \<le> cur + 1" by simp
    from Suc.hyps(1)[OF n one le Suc.prems(3)] obtain S where
      S: "bp_per_pix_loop rangeSizes (- M) (- (cur + 1)) = Some (Inr S)"
         "cur + 1 \<le> S" "pixelsUsed rangeSizes S \<le> M"
         "\<forall>S'. cur + 1 \<le> S' \<and> S' < S \<longrightarrow> \<not> pixelsUsed rangeSizes S' \<le> M"
      by blast
    have "\<forall>S'. cur \<le> S' \<and> S' < S \<longrightarrow> \<not> pixelsUsed rangeSizes S' \<le> M"
    proof (intro allI impI)
      fix S' assume a: "cur \<le> S' \<and> S' < S"
      show "\<not> pixelsUsed rangeSizes S' \<le> M"
      proof (cases "S' = cur")
        case True
        with False show ?thesis by simp
      next
        case False
        with a have "cur + 1 \<le> S' \<and> S' < S" by simp
        with S(4) show ?thesis by blast
      qed
    qed
    with S show ?thesis unfolding step by (intro exI[of _ S]) simp
  qed
qed


lemma pixelsUsed_small:
  assumes "1 \<le> S'" and "S' < \<lceil>real_of_int (sum_list rangeSizes) / real_of_int M\<rceil>" and "1 \<le> M"
  shows "\<not> pixelsUsed rangeSizes S' \<le> M"
proof -
  from assms(2) have "real_of_int S' < real_of_int (sum_list rangeSizes) / real_of_int M"
    by (simp add: less_ceiling_iff)
  with assms(3) have "real_of_int S' * real_of_int M < real_of_int (sum_list rangeSizes)"
    by (simp add: pos_less_divide_eq)
  with assms(1) have "real_of_int M < real_of_int (sum_list rangeSizes) / real_of_int S'"
    by (simp add: pos_less_divide_eq mult.commute)
  also have "\<dots> \<le> real_of_int (pixelsUsed rangeSizes S')"
    by (rule pixelsUsed_ge_real)
  finally show ?thesis by simp
qed

text \<open>
  Claim C1. For a non-empty list of positive range sizes and a pixel budget with
  \<open>maxPixels - pixTweenRanges * (n - 1) \<ge> n\<close>, \<open>get_bp_per_pix\<close> returns (it terminates, without
  an exception) an \<open>S \<ge> 1\<close> whose pixel use \<open>\<Sum> \<lceil>size / S\<rceil>\<close> is within
  \<open>maxPixels - pixTweenRanges * (n - 1)\<close>, while every smaller \<open>S' \<ge> 1\<close>, in particular \<open>S - 1\<close>,
  exceeds it. No sign condition on \<open>pixTweenRanges\<close> is needed.
\<close>

theorem get_bp_per_pix_minimal:
  assumes "rangeSizes \<noteq> []"
    and "\<forall>s \<in> set rangeSizes. 0 < s"
    and "int (length rangeSizes) \<le> maxPixels - pixTweenRanges * (int (length rangeSizes) - 1)"
  shows "\<exists>S. get_bp_per_pix rangeSizes pixTweenRanges maxPixels = Some (Inr S)
           \<and> 1 \<le> S
           \<and> pixelsUsed rangeSizes S \<le> maxPixels - pixTweenRanges * (int (length rangeSizes) - 1)
           \<and> (\<forall>S'. 1 \<le> S' \<and> S' < S \<longrightarrow>
                 \<not> pixelsUsed rangeSizes S' \<le> maxPixels - pixTweenRanges * (int (length rangeSizes) - 1))"
proof -
  define M where "M = maxPixels - pixTweenRanges * (int (length rangeSizes) - 1)"
  define tot where "tot = sum_list rangeSizes"
  define S0 where "S0 = \<lceil>real_of_int tot / real_of_int M\<rceil>"
  from assms(1) have n1: "1 \<le> int (length rangeSizes)" by (cases rangeSizes) simp_all
  with assms(3) have M1: "1 \<le> M" and Mn: "int (length rangeSizes) \<le> M"
    unfolding M_def by simp_all
  from assms(1) obtain x where x: "x \<in> set rangeSizes" by (cases rangeSizes) auto
  with assms(2) have "0 < x" by simp
  moreover from elem_le_sum[OF assms(2) x] have "x \<le> tot" unfolding tot_def .
  ultimately have tot1: "1 \<le> tot" by simp
  have "0 < real_of_int tot / real_of_int M" using tot1 M1 by simp
  then have S01: "1 \<le> S0" unfolding S0_def by (simp add: less_ceiling_iff[symmetric])
  have "real_of_int tot / real_of_int M \<le> real_of_int tot"
    using tot1 M1 by (simp add: pos_divide_le_eq)
  then have S0le: "S0 \<le> tot" unfolding S0_def by (rule ceiling_le)
  have big: "\<forall>s \<in> set rangeSizes. 0 < s \<and> s \<le> tot"
    using assms(2) elem_le_sum[OF assms(2)] unfolding tot_def by simp
  have fit: "pixelsUsed rangeSizes tot \<le> M"
    using pixelsUsed_big[OF big] Mn by simp
  from bp_per_pix_loop_least[OF S01 S0le fit] obtain S where
    S: "bp_per_pix_loop rangeSizes (- M) (- S0) = Some (Inr S)"
       "S0 \<le> S" "pixelsUsed rangeSizes S \<le> M"
       "\<forall>S'. S0 \<le> S' \<and> S' < S \<longrightarrow> \<not> pixelsUsed rangeSizes S' \<le> M"
    by blast
  have start: "sum_list rangeSizes div (- M) = - S0"
    unfolding S0_def tot_def by (rule div_neg_ceiling)
  have g: "get_bp_per_pix rangeSizes pixTweenRanges maxPixels = Some (Inr S)"
    unfolding get_bp_per_pix_def Let_def M_def[symmetric] start
    using Mn M1 S(1) by simp
  have least: "\<forall>S'. 1 \<le> S' \<and> S' < S \<longrightarrow> \<not> pixelsUsed rangeSizes S' \<le> M"
  proof (intro allI impI)
    fix S' assume a: "1 \<le> S' \<and> S' < S"
    show "\<not> pixelsUsed rangeSizes S' \<le> M"
    proof (cases "S0 \<le> S'")
      case True
      with a S(4) show ?thesis by blast
    next
      case False
      then have "S' < \<lceil>real_of_int (sum_list rangeSizes) / real_of_int M\<rceil>"
        unfolding S0_def tot_def by simp
      with a M1 show ?thesis by (intro pixelsUsed_small) simp_all
    qed
  qed
  from S01 S(2) have "1 \<le> S" by simp
  with g S(3) least show ?thesis unfolding M_def by (intro exI[of _ S] conjI)
qed

theorem get_bp_per_pix_minimal_witness:
  "[10, 7] \<noteq> ([] :: int list)
   \<and> get_bp_per_pix [10, 7] 1 9 = Some (Inr 3)
   \<and> pixelsUsed [10, 7] 3 \<le> 9 - 1 * (int (length [10, 7 :: int]) - 1)
   \<and> \<not> pixelsUsed [10, 7] 2 \<le> 9 - 1 * (int (length [10, 7 :: int]) - 1)"
proof -
  have h1: "[10, 7] \<noteq> ([] :: int list)" by simp
  have h2: "\<forall>s \<in> set [10, 7 :: int]. 0 < s" by simp
  have h3: "int (length [10, 7 :: int]) \<le> 9 - 1 * (int (length [10, 7 :: int]) - 1)" by simp
  have g: "get_bp_per_pix [10, 7] 1 9 = Some (Inr 3)"
    by (simp add: get_bp_per_pix_def bp_per_pix_loop.simps)
  from get_bp_per_pix_minimal[OF h1 h2 h3] obtain S where
    S: "get_bp_per_pix [10, 7] 1 9 = Some (Inr S)"
    and f: "pixelsUsed [10, 7] S \<le> 9 - 1 * (int (length [10, 7 :: int]) - 1)"
    and l: "\<forall>S'. 1 \<le> S' \<and> S' < S \<longrightarrow>
              \<not> pixelsUsed [10, 7] S' \<le> 9 - 1 * (int (length [10, 7 :: int]) - 1)"
    by blast
  from S g have eq: "S = 3" by simp
  from l have "\<not> pixelsUsed [10, 7] 2 \<le> 9 - 1 * (int (length [10, 7 :: int]) - 1)"
    unfolding eq by simp
  with h1 g f show ?thesis unfolding eq by (intro conjI)
qed

section \<open>Properties of the pixel placement\<close>

lemma mapE_Inr:
  "mapE f xs = Inr ys \<Longrightarrow> length ys = length xs \<and> (\<forall>i < length xs. f (xs ! i) = Inr (ys ! i))"
proof (induction xs arbitrary: ys)
  case Nil
  then show ?case by simp
next
  case (Cons x xs)
  from Cons.prems obtain y ys' where y: "f x = Inr y" and ys': "mapE f xs = Inr ys'"
    and ys: "ys = y # ys'"
    by (auto split: sum.splits)
  from Cons.IH[OF ys'] have len: "length ys' = length xs"
    and nth: "\<forall>i < length xs. f (xs ! i) = Inr (ys' ! i)" by simp_all
  show ?case
  proof (intro conjI allI impI)
    show "length ys = length (x # xs)" using len ys by simp
  next
    fix i assume "i < length (x # xs)"
    then show "f ((x # xs) ! i) = Inr (ys ! i)"
      using y nth ys by (cases i) simp_all
  qed
qed

lemma length_rangePixBegsLoop: "length (rangePixBegsLoop t p lens) = length lens"
  by (induction lens arbitrary: t) simp_all

lemma length_getRangePixBegs: "length (getRangePixBegs lens p m) = length lens"
  by (simp add: getRangePixBegs_def length_rangePixBegsLoop)

lemma div_ceil_ceiling:
  "S \<noteq> 0 \<Longrightarrow> div_ceil x S = Inr \<lceil>real_of_int x / real_of_int S\<rceil>"
  by (simp add: div_ceil_def ceiling_divide_eq_div zdiv_zminus1_eq_if)

lemma le_mult_ceiling:
  assumes "0 < S"
  shows "x \<le> S * \<lceil>real_of_int x / real_of_int S\<rceil>"
proof -
  from assms have Spos: "0 < real_of_int S" by simp
  have "real_of_int x / real_of_int S \<le> real_of_int \<lceil>real_of_int x / real_of_int S\<rceil>"
    by (rule le_of_int_ceiling)
  then have "real_of_int x \<le> real_of_int \<lceil>real_of_int x / real_of_int S\<rceil> * real_of_int S"
    by (rule iffD1[OF pos_divide_le_eq[OF Spos]])
  also have "\<dots> = real_of_int (S * \<lceil>real_of_int x / real_of_int S\<rceil>)"
    by (simp add: mult.commute)
  finally show ?thesis by (simp only: of_int_le_iff)
qed

lemma pixel_in_span:
  assumes "0 < (S :: int)" and "0 \<le> d" and "d < S * k"
  shows "j \<le> (S * j + d) div S \<and> (S * j + d) div S < j + k"
proof -
  from assms(1) have nz: "S \<noteq> 0" by simp
  have eq: "(S * j + d) div S = j + d div S" using nz by (rule div_mult_self4)
  from assms(1,2) have lo: "0 \<le> d div S" by (simp add: pos_imp_zdiv_nonneg_iff)
  have hi: "d div S < k"
  proof (rule ccontr)
    assume "\<not> d div S < k"
    then have "k \<le> d div S" by simp
    with assms(1) have "S * k \<le> S * (d div S)" by (simp add: mult_left_mono)
    also have "\<dots> = d - d mod S" by (simp add: minus_mod_eq_mult_div)
    also have "\<dots> \<le> d" using assms(1) by simp
    finally show False using assms(3) by simp
  qed
  from lo hi show ?thesis unfolding eq by simp
qed

lemma rangesWithOrigins_nth:
  "i < length sortedRanges \<Longrightarrow> i < length begs \<Longrightarrow> i < length lens \<Longrightarrow>
   sortedRanges ! i = (seqName, rangeBeg, rangeEnd, strandNum) \<Longrightarrow>
   rangesWithOrigins sortedRanges begs lens S ! i =
     (seqName, (rangeBeg, rangeEnd, strandNum > 1,
        if strandNum > 1 then S * (begs ! i + lens ! i) + rangeBeg else S * (begs ! i) - rangeBeg))"
proof (induction sortedRanges begs lens S arbitrary: i rule: rangesWithOrigins.induct)
  case (1 n b e s sortedRanges j rangePixBegs k rangePixLens bpPerPix)
  show ?case
  proof (cases i)
    case 0
    with "1.prems" show ?thesis by (simp add: Let_def)
  next
    case (Suc i')
    with "1.prems" have "i' < length sortedRanges" "i' < length rangePixBegs"
      "i' < length rangePixLens" "sortedRanges ! i' = (seqName, rangeBeg, rangeEnd, strandNum)"
      by simp_all
    from "1.IH"[OF refl refl this] show ?thesis unfolding Suc by (simp add: Let_def)
  qed
qed simp_all

text \<open>
  Claim C2. Let \<open>pixelData\<close> lay out the sizes of the sorted ranges at \<open>S \<ge> 1\<close> bases per
  pixel, and take the \<open>i\<close>-th range \<open>(seqName, rangeBeg, rangeEnd, strandNum)\<close> with its pixel
  start \<open>rangePixBegs ! i\<close> and pixel length \<open>rangePixLens ! i\<close>. Then the pixel length is
  \<open>\<lceil>(rangeEnd - rangeBeg) / S\<rceil>\<close>; \<open>rangesWithOrigins\<close> gives the range the origin
  \<open>S * (pixBeg + pixLen) + rangeBeg\<close> when it is reversed (\<open>strandNum > 1\<close>) and
  \<open>S * pixBeg - rangeBeg\<close> otherwise; and every position \<open>p\<close> with
  \<open>rangeBeg \<le> p < rangeEnd\<close> falls on a pixel inside \<open>[pixBeg, pixBeg + pixLen)\<close>, the pixel
  being \<open>(origin + p) div S\<close> for a forward and \<open>(origin - p - 1) div S\<close> for a reversed range.
\<close>

theorem rangesWithOrigins_pixel_span:
  assumes "1 \<le> S"
    and "pixelData (rangeSizesOf sortedRanges) S pixTweenRanges margin
           = Inr (rangePixBegs, rangePixLens, tot_pix)"
    and "i < length sortedRanges"
    and "sortedRanges ! i = (seqName, rangeBeg, rangeEnd, strandNum)"
  shows "rangePixLens ! i = \<lceil>real_of_int (rangeEnd - rangeBeg) / real_of_int S\<rceil>
       \<and> (\<exists>origin.
            rangesWithOrigins sortedRanges rangePixBegs rangePixLens S ! i
              = (seqName, (rangeBeg, rangeEnd, strandNum > 1, origin))
          \<and> origin = (if strandNum > 1
                       then S * (rangePixBegs ! i + rangePixLens ! i) + rangeBeg
                       else S * (rangePixBegs ! i) - rangeBeg)
          \<and> (\<forall>p. rangeBeg \<le> p \<and> p < rangeEnd \<longrightarrow>
                (let pixel = (if strandNum > 1 then (origin - p - 1) div S
                              else (origin + p) div S)
                 in rangePixBegs ! i \<le> pixel \<and> pixel < rangePixBegs ! i + rangePixLens ! i)))"
proof -
  from assms(1) have Spos: "0 < S" and Snz: "S \<noteq> 0" by simp_all
  from assms(2) have lens: "mapE (\<lambda>i. div_ceil i S) (rangeSizesOf sortedRanges) = Inr rangePixLens"
    and begs: "rangePixBegs = getRangePixBegs rangePixLens pixTweenRanges margin"
    unfolding pixelData_def Let_def by (auto split: sum.splits if_splits)
  note me = mapE_Inr[OF lens]
  have lsz: "length (rangeSizesOf sortedRanges) = length sortedRanges"
    by (simp add: rangeSizesOf_def)
  from me lsz have llen: "length rangePixLens = length sortedRanges" by simp
  then have blen: "length rangePixBegs = length sortedRanges"
    unfolding begs by (simp add: length_getRangePixBegs)
  have szi: "rangeSizesOf sortedRanges ! i = rangeEnd - rangeBeg"
    using assms(3,4) by (simp add: rangeSizesOf_def)
  from me assms(3) lsz have "div_ceil (rangeSizesOf sortedRanges ! i) S = Inr (rangePixLens ! i)"
    by simp
  then have k: "rangePixLens ! i = \<lceil>real_of_int (rangeEnd - rangeBeg) / real_of_int S\<rceil>"
    unfolding szi div_ceil_ceiling[OF Snz] by simp
  define j where "j = rangePixBegs ! i"
  define k where "k = rangePixLens ! i"
  define origin where "origin = (if strandNum > 1 then S * (j + k) + rangeBeg else S * j - rangeBeg)"
  have fit: "rangeEnd - rangeBeg \<le> S * k"
    unfolding k_def k using Spos by (rule le_mult_ceiling)
  have nth: "rangesWithOrigins sortedRanges rangePixBegs rangePixLens S ! i
              = (seqName, (rangeBeg, rangeEnd, strandNum > 1, origin))"
    unfolding origin_def j_def k_def
    using assms(3) blen llen assms(4) by (intro rangesWithOrigins_nth) simp_all
  have span: "\<forall>p. rangeBeg \<le> p \<and> p < rangeEnd \<longrightarrow>
                (let pixel = (if strandNum > 1 then (origin - p - 1) div S
                              else (origin + p) div S)
                 in j \<le> pixel \<and> pixel < j + k)"
  proof (intro allI impI)
    fix p assume p: "rangeBeg \<le> p \<and> p < rangeEnd"
    show "let pixel = (if strandNum > 1 then (origin - p - 1) div S else (origin + p) div S)
          in j \<le> pixel \<and> pixel < j + k"
    proof (cases "strandNum > 1")
      case True
      define d where "d = S * k - (p - rangeBeg + 1)"
      have d0: "0 \<le> d" and dk: "d < S * k" unfolding d_def using p fit by simp_all
      have "origin - p - 1 = S * j + d"
        unfolding origin_def d_def using True by (simp add: algebra_simps)
      with pixel_in_span[OF Spos d0 dk, of j] True show ?thesis by (simp add: Let_def)
    next
      case False
      define d where "d = p - rangeBeg"
      have d0: "0 \<le> d" and dk: "d < S * k" unfolding d_def using p fit by simp_all
      have "origin + p = S * j + d"
        unfolding origin_def d_def using False by (simp add: algebra_simps)
      with pixel_in_span[OF Spos d0 dk, of j] False show ?thesis by (simp add: Let_def)
    qed
  qed
  have "\<exists>origin.
            rangesWithOrigins sortedRanges rangePixBegs rangePixLens S ! i
              = (seqName, (rangeBeg, rangeEnd, strandNum > 1, origin))
          \<and> origin = (if strandNum > 1
                       then S * (rangePixBegs ! i + rangePixLens ! i) + rangeBeg
                       else S * (rangePixBegs ! i) - rangeBeg)
          \<and> (\<forall>p. rangeBeg \<le> p \<and> p < rangeEnd \<longrightarrow>
                (let pixel = (if strandNum > 1 then (origin - p - 1) div S
                              else (origin + p) div S)
                 in rangePixBegs ! i \<le> pixel \<and> pixel < rangePixBegs ! i + rangePixLens ! i))"
    using nth span origin_def unfolding j_def k_def by (intro exI[of _ origin] conjI)
  with k show ?thesis by (intro conjI)
qed

theorem rangesWithOrigins_pixel_span_witness:
  "pixelData (rangeSizesOf [(''chr1'', 0, 10, 1), (''chr2'', 5, 12, 2)]) 3 1 0
       = Inr ([0, 5], [4, 3], 8)
   \<and> [(''chr1'', 0, 10, 1), (''chr2'', 5, 12, 2)] ! 1 = (''chr2'', 5, 12, 2 :: int)
   \<and> rangesWithOrigins [(''chr1'', 0, 10, 1), (''chr2'', 5, 12, 2)] [0, 5] [4, 3] 3 ! 1
       = (''chr2'', (5, 12, True, 29))
   \<and> [4, 3] ! 1 = \<lceil>real_of_int (12 - 5) / real_of_int 3\<rceil>
   \<and> [0, 5] ! 1 \<le> (29 - 11 - 1) div (3 :: int)
   \<and> (29 - 11 - 1) div (3 :: int) < [0, 5] ! 1 + [4, 3] ! 1"
proof -
  have h1: "1 \<le> (3 :: int)" by simp
  have h2: "pixelData (rangeSizesOf [(''chr1'', 0, 10, 1), (''chr2'', 5, 12, 2)]) 3 1 0
       = Inr ([0, 5], [4, 3], 8)"
    by (simp add: pixelData_def rangeSizesOf_def div_ceil_def getRangePixBegs_def)
  have h3: "1 < length [(''chr1'', 0, 10, 1), (''chr2'', 5 :: int, 12 :: int, 2 :: int)]" by simp
  have h4: "[(''chr1'', 0, 10, 1), (''chr2'', 5, 12, 2)] ! 1 = (''chr2'', 5, 12, 2 :: int)" by simp
  note t = rangesWithOrigins_pixel_span[OF h1 h2 h3 h4]
  from t have k: "[4, 3] ! 1 = \<lceil>real_of_int (12 - 5) / real_of_int 3\<rceil>" by (elim conjE)
  from t obtain origin where
    o1: "rangesWithOrigins [(''chr1'', 0, 10, 1), (''chr2'', 5, 12, 2)] [0, 5] [4, 3] 3 ! 1
           = (''chr2'', (5, 12, (2 :: int) > 1, origin))"
    and o2: "origin = (if (2 :: int) > 1 then 3 * ([0, 5] ! 1 + [4, 3] ! 1) + 5
                       else 3 * ([0, 5] ! 1) - 5)"
    and o3: "\<forall>p. 5 \<le> p \<and> p < 12 \<longrightarrow>
                (let pixel = (if (2 :: int) > 1 then (origin - p - 1) div 3
                              else (origin + p) div 3)
                 in [0, 5] ! 1 \<le> pixel \<and> pixel < [0, 5] ! 1 + [4, 3] ! 1)"
    by blast
  from o2 have origin: "origin = 29" by simp
  from o1 have c3: "rangesWithOrigins [(''chr1'', 0, 10, 1), (''chr2'', 5, 12, 2)] [0, 5] [4, 3] 3 ! 1
       = (''chr2'', (5, 12, True, 29))" unfolding origin by simp
  from o3[rule_format, of 11] have c5: "[0, 5] ! 1 \<le> (29 - 11 - 1) div (3 :: int)
      \<and> (29 - 11 - 1) div (3 :: int) < [0, 5] ! 1 + [4, 3] ! 1"
    unfolding origin by (simp add: Let_def)
  from h2 h4 c3 k c5 show ?thesis by (intro conjI) simp_all
qed

section \<open>Properties of the strand vote and of the configuration errors\<close>

lemma strandVotes_signedSum:
  assumes "\<forall>a \<in> set alignments. snd (snd a) \<noteq> []" and "seqIndex = 0 \<or> seqIndex = 1"
  shows "strandVotes alignments seqIndex f = Inr (\<lambda>n. f n + signedSum alignments seqIndex n)"
  using assms(1)
proof (induction alignments arbitrary: f)
  case Nil
  show ?case by (simp add: signedSum_def alignmentsOf_def)
next
  case (Cons a alignments)
  obtain seq1 seq2 blocks where a: "a = (seq1, seq2, blocks)" by (cases a) auto
  from Cons.prems obtain beg1 beg2 sz rest where blocks: "blocks = (beg1, beg2, sz) # rest"
    unfolding a by (cases blocks) auto
  from Cons.prems have rest: "\<forall>a \<in> set alignments. snd (snd a) \<noteq> []" by simp
  define name where "name = (if seqIndex = 0 then seq1 else seq2)"
  have item: "alignmentItem (seq1, seq2, blocks) seqIndex = Inr name"
    using assms(2) unfolding alignmentItem_def name_def by auto
  define v where "v = signedLetterPairs a"
  have v: "(if (beg1 < 0) \<noteq> (beg2 < 0)
            then sum_list (map (\<lambda>(b1, b2, s). s) blocks) * (- 1)
            else sum_list (map (\<lambda>(b1, b2, s). s) blocks)) = v"
    unfolding v_def signedLetterPairs_def oppositeStrand_def alignedLetterPairs_def a blocks
    by auto
  have step: "strandVotes (a # alignments) seqIndex f
                = strandVotes alignments seqIndex (f(name := f name + v))"
    using item[unfolded blocks] v[unfolded blocks] unfolding a blocks
    by (auto simp: Let_def bindE_def split: if_splits)
  have ss: "\<And>n. signedSum (a # alignments) seqIndex n
              = (if n = name then v else 0) + signedSum alignments seqIndex n"
    unfolding signedSum_def alignmentsOf_def a name_def v_def by (simp add: a)
  show ?case
    unfolding step Cons.IH[OF rest] ss by (auto simp: fun_eq_iff)
qed

lemma rangesWithStrandInfo_Inr:
  assumes "\<forall>a \<in> set alignments. snd (snd a) \<noteq> []" and "seqIndex = 0 \<or> seqIndex = 1"
  shows "\<exists>r. rangesWithStrandInfo seqRanges strandOpt alignments seqIndex = Inr r"
  unfolding rangesWithStrandInfo_def strandVotes_signedSum[OF assms] bindE_def
  by simp

text \<open>
  Claim C9. With strand option \<open>"1"\<close>, when every alignment has at least one block and the
  sequence index is 0 or 1 (the only values used), \<open>rangesWithStrandInfo\<close> gives each range
  the strand number 1 if the signed sum of the aligned letter pairs over the alignments of its
  sequence is \<open>\<ge> 0\<close> and 2 otherwise, the count of an alignment being negated when its first
  block has exactly one negative begin coordinate. A sequence without alignments has sum 0, hence
  strand number 1.
\<close>

theorem rangesWithStrandInfo_majority:
  assumes "\<forall>a \<in> set alignments. snd (snd a) \<noteq> []" and "seqIndex = 0 \<or> seqIndex = 1"
  shows "rangesWithStrandInfo seqRanges ''1'' alignments seqIndex
           = Inr (map (\<lambda>(seqName, beg, en).
                    (seqName, beg, en,
                     if signedSum alignments seqIndex seqName \<ge> 0 then 1 else 2)) seqRanges)
       \<and> (\<forall>seqName. alignmentsOf alignments seqIndex seqName = []
             \<longrightarrow> signedSum alignments seqIndex seqName = 0)"
  unfolding rangesWithStrandInfo_def strandVotes_signedSum[OF assms] bindE_def
  by (simp add: signedSum_def)

theorem rangesWithStrandInfo_majority_witness:
  "rangesWithStrandInfo [(''a'', 0, 100), (''b'', 0, 50), (''c'', 0, 10)] ''1''
       [(''a'', ''x'', [(0, 0, 10)]), (''a'', ''y'', [(5, - 30, 8), (14, - 20, 7)]),
        (''b'', ''x'', [(0, 0, 3)])] 0
     = Inr [(''a'', 0, 100, 2), (''b'', 0, 50, 1), (''c'', 0, 10, 1)]
   \<and> signedSum [(''a'', ''x'', [(0, 0, 10)]), (''a'', ''y'', [(5, - 30, 8), (14, - 20, 7)]),
        (''b'', ''x'', [(0, 0, 3)])] 0 ''a'' = - 5
   \<and> alignmentsOf [(''a'', ''x'', [(0, 0, 10)]), (''a'', ''y'', [(5, - 30, 8), (14, - 20, 7)]),
        (''b'', ''x'', [(0, 0, 3)])] 0 ''c'' = []
   \<and> signedSum [(''a'', ''x'', [(0, 0, 10)]), (''a'', ''y'', [(5, - 30, 8), (14, - 20, 7)]),
        (''b'', ''x'', [(0, 0, 3)])] 0 ''c'' = 0"
  using rangesWithStrandInfo_majority
    [of "[(''a'', ''x'', [(0, 0, 10)]), (''a'', ''y'', [(5, - 30, 8), (14, - 20, 7)]),
        (''b'', ''x'', [(0, 0, 3)])]" 0 "[(''a'', 0, 100), (''b'', 0, 50), (''c'', 0, 10)]"]
  by (simp add: signedSum_def alignmentsOf_def signedLetterPairs_def oppositeStrand_def
        alignedLetterPairs_def)

text \<open>
  Claim C5. When both primary sort options are \<open>"3"\<close>, \<open>allSortedRanges\<close> raises a
  \<open>RuntimeError\<close> whatever the sorting routine does, so no sorted range is computed first:
  the sort error, or the strand error when both primary strand options are \<open>"1"\<close>. This is
  for option strings that split into two values and alignments with at least one block each.
  And \<open>get_bp_per_pix\<close> raises a \<open>RuntimeError\<close> whenever
  \<open>maxPixels - pixTweenRanges * (n - 1) < n\<close>.
\<close>

theorem configuration_errors_first:
  assumes "unpack2 (twoValuesFromOption (strands1 opts) CHR '':'') = Inr (strand1, strandB1)"
    and "unpack2 (twoValuesFromOption (strands2 opts) CHR '':'') = Inr (strand2, strandB2)"
    and "\<forall>a \<in> set alignments. snd (snd a) \<noteq> []"
    and "\<forall>a \<in> set alignmentsB. snd (snd a) \<noteq> []"
    and "unpack2 (twoValuesFromOption (sort1 opts) CHR '':'') = Inr (''3'', sortB1)"
    and "unpack2 (twoValuesFromOption (sort2 opts) CHR '':'') = Inr (''3'', sortB2)"
  shows "allSortedRanges mySortedRanges opts alignments alignmentsB
             seqRanges1 seqRangesB1 seqRanges2 seqRangesB2
           = Inl (RuntimeError (if strand1 = ''1'' \<and> strand2 = ''1''
                                then ''the strand options have circular dependency''
                                else ''the sort options have circular dependency''))
       \<and> (maxPixels - pixTweenRanges * (int (length rangeSizes) - 1) < int (length rangeSizes)
            \<longrightarrow> get_bp_per_pix rangeSizes pixTweenRanges maxPixels
                  = Some (Inl (RuntimeError ''can't fit the image: too many sequences?'')))"
proof -
  obtain r1 where r1: "rangesWithStrandInfo seqRanges1 strand1 alignments 0 = Inr r1"
    using rangesWithStrandInfo_Inr[OF assms(3), of 0] by auto
  obtain r2 where r2: "rangesWithStrandInfo seqRanges2 strand2 alignments 1 = Inr r2"
    using rangesWithStrandInfo_Inr[OF assms(3), of 1] by auto
  obtain rB1 where rB1: "rangesWithStrandInfo seqRangesB1 strandB1 alignmentsB 0 = Inr rB1"
    using rangesWithStrandInfo_Inr[OF assms(4), of 0] by auto
  obtain rB2 where rB2: "rangesWithStrandInfo seqRangesB2 strandB2 alignmentsB 1 = Inr rB2"
    using rangesWithStrandInfo_Inr[OF assms(4), of 1] by auto
  have a: "allSortedRanges mySortedRanges opts alignments alignmentsB
             seqRanges1 seqRangesB1 seqRanges2 seqRangesB2
           = Inl (RuntimeError (if strand1 = ''1'' \<and> strand2 = ''1''
                                then ''the strand options have circular dependency''
                                else ''the sort options have circular dependency''))"
    unfolding allSortedRanges_def assms(1,2,5,6) bindE_def sum.case prod.case r1 r2 rB1 rB2
    by simp
  have b: "maxPixels - pixTweenRanges * (int (length rangeSizes) - 1) < int (length rangeSizes)
            \<longrightarrow> get_bp_per_pix rangeSizes pixTweenRanges maxPixels
                  = Some (Inl (RuntimeError ''can't fit the image: too many sequences?''))"
    by (simp add: get_bp_per_pix_def Let_def)
  from a b show ?thesis by (intro conjI)
qed

theorem configuration_errors_first_witness:
  "allSortedRanges (\<lambda>_ _ _ _ _. Inr [])
       \<lparr>strands1 = ''0'', strands2 = ''1:0'', sort1 = ''3'', sort2 = ''3:1''\<rparr>
       [(''a'', ''x'', [(0, 0, 10)])] [] [(''a'', 0, 100)] [] [(''x'', 0, 100)] []
     = Inl (RuntimeError ''the sort options have circular dependency'')
   \<and> get_bp_per_pix [10, 7, 3] 1 4
     = Some (Inl (RuntimeError ''can't fit the image: too many sequences?''))"
  using configuration_errors_first
    [where opts = "\<lparr>strands1 = ''0'', strands2 = ''1:0'', sort1 = ''3'', sort2 = ''3:1''\<rparr>"
       and ?strand1.0 = "''0''" and ?strandB1.0 = "''0''" and ?strand2.0 = "''1''" and ?strandB2.0 = "''0''"
       and alignments = "[(''a'', ''x'', [(0, 0, 10)])]" and alignmentsB = "[]"
       and ?sortB1.0 = "''3''" and ?sortB2.0 = "''1''"
       and maxPixels = 4 and pixTweenRanges = 1 and rangeSizes = "[10, 7, 3]"
       and mySortedRanges = "\<lambda>_ _ _ _ _. Inr []"
       and ?seqRanges1.0 = "[(''a'', 0, 100)]" and ?seqRangesB1.0 = "[]"
       and ?seqRanges2.0 = "[(''x'', 0, 100)]" and ?seqRangesB2.0 = "[]"]
  by (simp add: twoValuesFromOption_def)

section \<open>Properties of trimming\<close>

lemma mapE_map:
  "\<forall>x \<in> set xs. f x = Inr (g x) \<Longrightarrow> mapE f xs = Inr (map g xs)"
  by (induction xs) simp_all

lemma bitLength_bounds:
  "0 < n \<Longrightarrow> 2 ^ (bitLength n - 1) \<le> n \<and> n < 2 ^ bitLength n"
proof (induction n rule: bitLength.induct)
  case (1 n)
  define m where "m = n div 2"
  have n: "n = 2 * m + n mod 2" and r: "0 \<le> n mod 2" "n mod 2 < 2"
    by (simp_all add: m_def)
  have bn: "bitLength n = Suc (bitLength m)"
    using "1.prems" by (subst bitLength.simps) (simp add: m_def)
  show ?case
  proof (cases "m \<le> 0")
    case True
    then have "bitLength m = 0" by (subst bitLength.simps) simp
    moreover from True n r "1.prems" have "n = 1" by linarith
    ultimately show ?thesis unfolding bn by simp
  next
    case False
    then have mpos: "0 < m" by simp
    from "1.prems" have "\<not> n \<le> 0" by simp
    from "1.IH"[OF this mpos[unfolded m_def]]
    have lo: "2 ^ (bitLength m - 1) \<le> m" and hi: "m < 2 ^ bitLength m"
      by (simp_all add: m_def)
    have bpos: "0 < bitLength m"
      using mpos by (subst bitLength.simps) simp
    then have "(2 :: int) ^ bitLength m = 2 * 2 ^ (bitLength m - 1)"
      by (cases "bitLength m") simp_all
    with lo have lo': "2 ^ bitLength m \<le> 2 * m" by linarith
    from hi have "2 * m + 2 \<le> 2 * 2 ^ bitLength m" by linarith
    with n r lo' show ?thesis unfolding bn by simp linarith
  qed
qed

lemma roundHalfEven_of_int: "roundHalfEven (of_int K) = K"
  by (simp add: roundHalfEven_def)

lemma round64_exact:
  assumes "x \<noteq> 0"
    and "\<bar>x\<bar> / pow2 (max (binexp \<bar>x\<bar>) (- 1022) - 52) = of_int K"
    and "\<bar>x\<bar> < pow2 1024"
  shows "round64 x = Finite x"
proof -
  define q where "q = pow2 (max (binexp \<bar>x\<bar>) (- 1022) - 52)"
  have qpos: "0 < q" unfolding q_def pow2_def by simp
  from assms(2) have d: "\<bar>x\<bar> / q = of_int K" unfolding q_def .
  then have "\<bar>x\<bar> = of_int K * q" using qpos by (simp add: field_simps)
  then have y: "of_int (roundHalfEven (\<bar>x\<bar> / q)) * q = \<bar>x\<bar>"
    unfolding d roundHalfEven_of_int by simp
  have "round64 x = (if pow2 1024 \<le> \<bar>x\<bar> then (if 0 < x then PosInf else NegInf)
                     else Finite (if 0 < x then \<bar>x\<bar> else - \<bar>x\<bar>))"
    unfolding round64_def Let_def q_def[symmetric] y using assms(1) by (simp only: if_False)
  also have "\<dots> = Finite (if 0 < x then \<bar>x\<bar> else - \<bar>x\<bar>)"
    using assms(3) by (simp only: not_le[symmetric] if_False)
  also have "(if 0 < x then \<bar>x\<bar> else - \<bar>x\<bar>) = x" by simp
  finally show ?thesis .
qed

lemma round64_int:
  assumes "\<bar>i\<bar> \<le> 2 ^ 53"
  shows "round64 (of_int i) = Finite (of_int i)"
proof (cases "i = 0")
  case True
  then show ?thesis by (simp add: round64_def)
next
  case False
  define n where "n = \<bar>i\<bar>"
  have npos: "0 < n" using False by (simp add: n_def)
  have a: "\<bar>of_int i :: real\<bar> = of_int n" by (simp add: n_def)
  define b where "b = bitLength n"
  from bitLength_bounds[OF npos] have lo: "2 ^ (b - 1) \<le> n" and hi: "n < 2 ^ b"
    by (simp_all add: b_def)
  have bpos: "0 < b" unfolding b_def using npos by (subst bitLength.simps) simp
  have e: "binexp (of_int n) = int b - 1"
    using npos by (simp add: binexp_def b_def)
  have p53: "(2 :: int) ^ (b - 1) \<le> 2 ^ 53" using lo assms by (simp add: n_def)
  have one: "(1 :: int) < 2" by simp
  from power_le_imp_le_exp[OF one p53] have b53: "b - 1 \<le> 53" .
  have m: "max (int b - 1) (- 1022) = int b - 1" using bpos by simp
  have ex: "\<exists>K. of_int n / pow2 (int b - 1 - 52) = (of_int K :: real)"
  proof (cases "b - 1 = 53")
    case True
    with lo assms have "n = 2 ^ 53" by (simp add: n_def)
    moreover from True have "int b - 1 - 52 = 1" by simp
    ultimately have "of_int n / pow2 (int b - 1 - 52) = (of_int (2 ^ 52) :: real)"
      by (simp add: pow2_def)
    then show ?thesis by blast
  next
    case False
    with b53 have le: "int b - 1 \<le> 52" by simp
    define k where "k = nat (52 - (int b - 1))"
    have "pow2 (int b - 1 - 52) = 1 / 2 ^ k"
    proof (cases "int b - 1 = 52")
      case True
      then show ?thesis by (simp add: pow2_def k_def)
    next
      case False
      with le have "int b - 1 - 52 < 0" by simp
      then show ?thesis by (simp add: pow2_def k_def)
    qed
    then have "of_int n / pow2 (int b - 1 - 52) = (of_int (n * 2 ^ k) :: real)"
      by simp
    then show ?thesis by blast
  qed
  then obtain K where K: "of_int n / pow2 (int b - 1 - 52) = (of_int K :: real)" by blast
  have "(of_int n :: real) \<le> 2 ^ 53" using assms unfolding n_def
    by (metis of_int_le_iff of_int_numeral of_int_power)
  also have "(2 :: real) ^ 53 < 2 ^ 1024" by (rule power_strict_increasing) simp_all
  finally have lt: "\<bar>of_int i :: real\<bar> < pow2 1024" unfolding a by (simp add: pow2_def)
  show ?thesis
    by (rule round64_exact[where K = K]) (use False K lt in \<open>simp_all add: a e m\<close>)
qed

lemma float_of_int_exact:
  "\<bar>i\<bar> \<le> 2 ^ 53 \<Longrightarrow> float_of_int i = Inr (Finite (of_int i))"
  by (simp add: float_of_int_def round64_int)

lemma pymax_Finite: "pymax (Finite a) (Finite b) = Finite (max a b)"
  by (simp add: pymax_def max_def)

lemma maxGaps_finite:
  assumes "unpack2 (twoValuesFromOption maxGapFrac CHR '','') = Inr (endText, midText)"
    and "float_of_string endText = Inr (Finite endGapFrac)"
    and "float_of_string midText = Inr (Finite midGapFrac)"
    and "\<bar>minAlignedBases\<bar> \<le> 2 ^ 53" and "\<bar>endPad\<bar> \<le> 2 ^ 53" and "\<bar>midPad\<bar> \<le> 2 ^ 52"
    and "round64 (endGapFrac * real_of_int minAlignedBases) = Finite endProduct"
    and "round64 (midGapFrac * real_of_int minAlignedBases) = Finite midProduct"
  shows "maxGaps maxGapFrac minAlignedBases endPad midPad
           = Inr (Finite (max endProduct (real_of_int endPad)),
                  Finite (max midProduct (2 * real_of_int midPad)))"
proof -
  have e: "float_mul (Finite (real_of_int endPad)) (Finite 1) = Finite (real_of_int endPad)"
    using round64_int[OF assms(5)] by simp
  have "\<bar>midPad * 2\<bar> \<le> 2 ^ 53" using assms(6) by simp
  from round64_int[OF this]
  have m: "float_mul (Finite (real_of_int midPad)) (Finite 2) = Finite (2 * real_of_int midPad)"
    by (simp add: mult.commute)
  have "\<bar>midPad\<bar> \<le> 2 ^ 53" using assms(6) by simp
  note conv = float_of_int_exact[OF assms(4)] float_of_int_exact[OF assms(5)]
    float_of_int_exact[OF this]
  show ?thesis
    unfolding maxGaps_def assms(1-3) bindE_def sum.case prod.case Let_def conv
    using e m by (simp add: assms(7,8) round64_int[OF assms(5)] pymax_Finite)
qed

lemma cutGaps_Cons:
  "cutGaps T (x # y # blocks)
     = (if T < real_of_int (fst y - snd x) then (x, y) # cutGaps T (y # blocks)
        else cutGaps T (y # blocks))"
  by (simp add: cutGaps_def)

lemma cutGaps_single: "cutGaps T [x] = []" "cutGaps T [] = []"
  by (simp_all add: cutGaps_def)

lemma trimMid_spec:
  "trimMid (Finite T) midPad seqName rb blocks = (out, rb') \<Longrightarrow>
     out @ [(seqName, rb', E)]
       = map (\<lambda>(b, e). (seqName, b, e))
           (zip (rb # map (\<lambda>(x, y). fst y - midPad) (cutGaps T blocks))
                (map (\<lambda>(x, y). snd x + midPad) (cutGaps T blocks) @ [E]))"
proof (induction blocks arbitrary: rb out rb')
  case Nil
  then show ?case by (simp add: cutGaps_single)
next
  case (Cons x rest)
  show ?case
  proof (cases rest)
    case Nil
    with Cons.prems show ?thesis by (simp add: cutGaps_single)
  next
    case (Cons y blocks)
    show ?thesis
    proof (cases "T < real_of_int (fst y - snd x)")
      case True
      obtain out1 rb1 where r: "trimMid (Finite T) midPad seqName (fst y - midPad) rest = (out1, rb1)"
        by (cases "trimMid (Finite T) midPad seqName (fst y - midPad) rest") auto
      from Cons.prems True r have o: "out = (seqName, rb, snd x + midPad) # out1" and rb: "rb' = rb1"
        unfolding Cons by simp_all
      from Cons.IH[OF r] show ?thesis
        unfolding o rb Cons cutGaps_Cons using True by simp
    next
      case False
      with Cons.prems have r: "trimMid (Finite T) midPad seqName rb rest = (out, rb')"
        unfolding Cons by simp
      from Cons.IH[OF r] show ?thesis
        unfolding Cons cutGaps_Cons using False by simp
    qed
  qed
qed

lemma trimmedRange_spec:
  assumes "coverDict seqName = Some seqBlocks"
    and "filter (\<lambda>i. fst i < rangeEnd \<and> rangeBeg < snd i) seqBlocks \<noteq> []"
  shows "trimmedRange coverDict (Finite maxEndGap) (Finite maxMidGap) endPad midPad
           (seqName, rangeBeg, rangeEnd)
         = Inr (trimmedSpec maxEndGap maxMidGap endPad midPad seqBlocks
                  (seqName, rangeBeg, rangeEnd))"
proof -
  define blocks where "blocks = filter (\<lambda>i. fst i < rangeEnd \<and> rangeBeg < snd i) seqBlocks"
  define b where "b = (if maxEndGap < real_of_int (fst (hd blocks) - rangeBeg)
                       then fst (hd blocks) - endPad else rangeBeg)"
  define e where "e = (if maxEndGap < real_of_int (rangeEnd - snd (last blocks))
                       then snd (last blocks) + endPad else rangeEnd)"
  obtain mid rb where mid: "trimMid (Finite maxMidGap) midPad seqName b blocks = (mid, rb)"
    by (cases "trimMid (Finite maxMidGap) midPad seqName b blocks") auto
  have ne: "blocks \<noteq> []" using assms(2) by (simp add: blocks_def)
  have ov: "overlapping seqBlocks rangeBeg rangeEnd = blocks"
    by (simp add: overlapping_def blocks_def)
  have res: "trimmedRange coverDict (Finite maxEndGap) (Finite maxMidGap) endPad midPad
               (seqName, rangeBeg, rangeEnd) = Inr (mid @ [(seqName, rb, e)])"
    apply (simp only: trimmedRange_def prod.case assms(1) option.case Let_def ov
        int_gt_float.simps)
    apply (simp only: b_def[symmetric] e_def[symmetric] ne if_False mid prod.case)
    done
  have spec: "trimmedSpec maxEndGap maxMidGap endPad midPad seqBlocks (seqName, rangeBeg, rangeEnd)
                = map (\<lambda>(b, e). (seqName, b, e))
                    (zip (b # map (\<lambda>(x, y). fst y - midPad) (cutGaps maxMidGap blocks))
                         (map (\<lambda>(x, y). snd x + midPad) (cutGaps maxMidGap blocks) @ [e]))"
    apply (simp only: trimmedSpec_def prod.case Let_def blocks_def[symmetric])
    apply (simp only: b_def[symmetric] e_def[symmetric])
    done
  show ?thesis unfolding res spec trimMid_spec[OF mid] ..
qed

lemma zip_ends:
  assumes "length xs = length ys"
  shows "zip (a # xs) (ys @ [b]) \<noteq> []
       \<and> fst (hd (zip (a # xs) (ys @ [b]))) = a
       \<and> snd (last (zip (a # xs) (ys @ [b]))) = b"
proof -
  have l: "length (a # xs) = length (ys @ [b])" using assms by simp
  have n: "zip (a # xs) (ys @ [b]) \<noteq> []" by (cases ys) simp_all
  have h: "fst (hd (zip (a # xs) (ys @ [b]))) = a" by (cases ys) simp_all
  have "last (zip (a # xs) (ys @ [b])) = (last (a # xs), last (ys @ [b]))"
    by (rule last_zip) (use l in simp_all)
  then have "snd (last (zip (a # xs) (ys @ [b]))) = b" by simp
  with n h show ?thesis by simp
qed

lemma trimmedSpec_ends:
  assumes "out = trimmedSpec maxEndGap maxMidGap endPad midPad seqBlocks
                   (seqName, rangeBeg, rangeEnd)"
    and "blocks = filter (\<lambda>i. fst i < rangeEnd \<and> rangeBeg < snd i) seqBlocks"
  shows "out \<noteq> []
       \<and> fst (snd (hd out))
           = (if maxEndGap < real_of_int (fst (hd blocks) - rangeBeg)
              then fst (hd blocks) - endPad else rangeBeg)
       \<and> snd (snd (last out))
           = (if maxEndGap < real_of_int (rangeEnd - snd (last blocks))
              then snd (last blocks) + endPad else rangeEnd)"
proof -
  define b where "b = (if maxEndGap < real_of_int (fst (hd blocks) - rangeBeg)
                       then fst (hd blocks) - endPad else rangeBeg)"
  define e where "e = (if maxEndGap < real_of_int (rangeEnd - snd (last blocks))
                       then snd (last blocks) + endPad else rangeEnd)"
  define xs where "xs = map (\<lambda>(x, y). fst y - midPad) (cutGaps maxMidGap blocks)"
  define ys where "ys = map (\<lambda>(x, y). snd x + midPad) (cutGaps maxMidGap blocks)"
  define z where "z = zip (b # xs) (ys @ [e])"
  have out: "out = map (\<lambda>(b, e). (seqName, b, e)) z"
    unfolding assms(1) z_def xs_def ys_def
    apply (simp only: trimmedSpec_def prod.case Let_def assms(2)[symmetric])
    apply (simp only: b_def[symmetric] e_def[symmetric])
    done
  have "length xs = length ys" by (simp add: xs_def ys_def)
  from zip_ends[OF this, of b e]
  have z: "z \<noteq> []" "fst (hd z) = b" "snd (last z) = e" by (simp_all add: z_def)
  have 1: "out \<noteq> []" using z(1) by (simp add: out)
  have 2: "fst (snd (hd out)) = b"
    using z(1,2) by (simp add: out hd_map split: prod.splits)
  have 3: "snd (snd (last out)) = e"
    using z(1,3) by (simp add: out last_map split: prod.splits)
  from 1 2 3 show ?thesis unfolding b_def e_def by simp
qed

lemma round64_eval:
  assumes "x \<noteq> 0" and "binexp \<bar>x\<bar> = e0" and "max e0 (- 1022) = e"
    and "pow2 (e - 52) = q" and "roundHalfEven (\<bar>x\<bar> / q) = m"
    and "\<not> pow2 1024 \<le> of_int m * q"
  shows "round64 x = Finite (if 0 < x then of_int m * q else - (of_int m * q))"
  unfolding round64_def Let_def assms(2-5) using assms(1,6) by (simp only: if_False)

lemma float_of_string_decimal:
  assumes "parseDecimal s = Some v"
    and "dropWhile isSpace s = s" and "dropWhile isSpace (rev s) = rev s"
    and "underscoresOk CHR 0x00 s" and "filter (\<lambda>c. c \<noteq> CHR ''_'') s = s"
    and "splitSign s = (False, s)"
    and "map lowerChar s \<noteq> ''inf''" and "map lowerChar s \<noteq> ''infinity''"
    and "map lowerChar s \<noteq> ''nan''"
  shows "float_of_string s = Inr (round64 v)"
  unfolding float_of_string_def Let_def assms(2,3) rev_rev_ident assms(5,6) prod.case
  using assms(1,4,7,8,9) by simp

lemma example_057: "float_of_string ''0.57'' = Inr (Finite (5134103575202365 / 2 ^ 53))"
proof -
  have p: "parseDecimal ''0.57'' = Some (57 / 100)"
    by (simp add: isDigit_def splitSign_def parseDecimal_def parseExponent_def digitsVal_def
          digitVal_def pow10_def Let_def)
  have s: "float_of_string ''0.57'' = Inr (round64 (57 / 100))"
    by (rule float_of_string_decimal[OF p])
       (simp_all add: isSpace_def isDigit_def splitSign_def lowerChar_def)
  have "round64 (57 / 100)
          = Finite (if (0 :: real) < 57 / 100 then real_of_int 5134103575202365 * (1 / 2 ^ 53)
                    else - (real_of_int 5134103575202365 * (1 / 2 ^ 53)))"
    by (rule round64_eval[where ?e0.0 = "- 1" and e = "- 1"])
       (simp_all add: binexp_def bitLength.simps pow2_def roundHalfEven_def Let_def)
  then have "round64 (57 / 100) = Finite (5134103575202365 / 2 ^ 53)" by simp
  with s show ?thesis by simp
qed

lemma example_02: "float_of_string ''0.2'' = Inr (Finite (7205759403792794 / 2 ^ 55))"
proof -
  have p: "parseDecimal ''0.2'' = Some (2 / 10)"
    by (simp add: isDigit_def splitSign_def parseDecimal_def parseExponent_def digitsVal_def
          digitVal_def pow10_def Let_def)
  have s: "float_of_string ''0.2'' = Inr (round64 (2 / 10))"
    by (rule float_of_string_decimal[OF p])
       (simp_all add: isSpace_def isDigit_def splitSign_def lowerChar_def)
  have "round64 (2 / 10)
          = Finite (if (0 :: real) < 2 / 10 then real_of_int 7205759403792794 * (1 / 2 ^ 55)
                    else - (real_of_int 7205759403792794 * (1 / 2 ^ 55)))"
    by (rule round64_eval[where ?e0.0 = "- 3" and e = "- 3"])
       (simp_all add: binexp_def bitLength.simps pow2_def roundHalfEven_def Let_def)
  then have "round64 (2 / 10) = Finite (7205759403792794 / 2 ^ 55)" by simp
  with s show ?thesis by simp
qed

lemma example_end_product:
  "round64 (5134103575202365 / 2 ^ 53 * real_of_int 100) = Finite (8022036836253695 / 2 ^ 47)"
proof -
  have "round64 (5134103575202365 / 2 ^ 53 * real_of_int 100)
          = Finite (if (0 :: real) < 5134103575202365 / 2 ^ 53 * real_of_int 100
                    then real_of_int 8022036836253695 * (1 / 2 ^ 47)
                    else - (real_of_int 8022036836253695 * (1 / 2 ^ 47)))"
    by (rule round64_eval[where ?e0.0 = 5 and e = 5])
       (simp_all add: binexp_def bitLength.simps pow2_def roundHalfEven_def Let_def)
  then show ?thesis by simp
qed

lemma example_mid_product:
  "round64 (7205759403792794 / 2 ^ 55 * real_of_int 100) = Finite 20"
proof -
  have "round64 (7205759403792794 / 2 ^ 55 * real_of_int 100)
          = Finite (if (0 :: real) < 7205759403792794 / 2 ^ 55 * real_of_int 100
                    then real_of_int 5629499534213120 * (1 / 2 ^ 48)
                    else - (real_of_int 5629499534213120 * (1 / 2 ^ 48)))"
    by (rule round64_eval[where ?e0.0 = 4 and e = 4])
       (simp_all add: binexp_def bitLength.simps pow2_def roundHalfEven_def Let_def)
  then show ?thesis by simp
qed

text \<open>
  Claim C8. Let the option text split into two decimal fractions with finite float values, let
  \<open>minAlignedBases\<close> and the pads be exactly representable as floats, and let every input
  range have a coverage list with at least one interval overlapping it. The end threshold is
  \<open>max(endGapFrac * minAlignedBases, endPad)\<close> with the product rounded to double precision,
  the middle threshold \<open>max(midGapFrac * minAlignedBases, 2 * midPad)\<close> likewise. Then
  \<open>trimmed\<close> yields for each range exactly the pieces described by \<open>trimmedSpec\<close>. The
  begin of the first piece is the first covered position minus \<open>endPad\<close> if the left flank
  (first covered position minus range begin) exceeds the end threshold, and the range begin
  otherwise; symmetrically the end of the last piece is the last covered position plus
  \<open>endPad\<close> or the range end. Hence the range only shrinks, with a pad that is not negative
  neither end passes the first or last covered position, and where a middle gap is cut the
  piece before it ends before the piece after it begins, each \<open>midPad\<close> away from the
  covered interval.
\<close>

theorem trimmed_ends:
  assumes "unpack2 (twoValuesFromOption maxGapFrac CHR '','') = Inr (endText, midText)"
    and "float_of_string endText = Inr (Finite endGapFrac)"
    and "float_of_string midText = Inr (Finite midGapFrac)"
    and "\<bar>minAlignedBases\<bar> \<le> 2 ^ 53" and "\<bar>endPad\<bar> \<le> 2 ^ 53" and "\<bar>midPad\<bar> \<le> 2 ^ 52"
    and "round64 (endGapFrac * real_of_int minAlignedBases) = Finite endProduct"
    and "round64 (midGapFrac * real_of_int minAlignedBases) = Finite midProduct"
    and "maxEndGap = max endProduct (real_of_int endPad)"
    and "maxMidGap = max midProduct (2 * real_of_int midPad)"
    and "\<forall>r \<in> set seqRanges.
           coverDict (fst r) = Some (cover (fst r))
           \<and> filter (\<lambda>i. fst i < snd (snd r) \<and> fst (snd r) < snd i) (cover (fst r)) \<noteq> []"
  shows "trimmed seqRanges coverDict minAlignedBases maxGapFrac endPad midPad
           = Inr (concat (map (\<lambda>r. trimmedSpec maxEndGap maxMidGap endPad midPad
                                    (cover (fst r)) r) seqRanges))
       \<and> (\<forall>r \<in> set seqRanges. \<forall>seqName rangeBeg rangeEnd.
             r = (seqName, rangeBeg, rangeEnd) \<longrightarrow>
             (let blocks = filter (\<lambda>i. fst i < rangeEnd \<and> rangeBeg < snd i) (cover seqName);
                  first = fst (hd blocks);
                  lst = snd (last blocks);
                  out = trimmedSpec maxEndGap maxMidGap endPad midPad (cover seqName) r;
                  newBeg = fst (snd (hd out));
                  newEnd = snd (snd (last out))
              in out \<noteq> []
               \<and> newBeg = (if maxEndGap < real_of_int (first - rangeBeg)
                           then first - endPad else rangeBeg)
               \<and> newEnd = (if maxEndGap < real_of_int (rangeEnd - lst)
                           then lst + endPad else rangeEnd)
               \<and> rangeBeg \<le> newBeg \<and> newEnd \<le> rangeEnd
               \<and> (0 \<le> endPad \<longrightarrow> newBeg \<le> max rangeBeg first \<and> min rangeEnd lst \<le> newEnd)
               \<and> (\<forall>(x, y) \<in> set (zip blocks (tl blocks)).
                     maxMidGap < real_of_int (fst y - snd x)
                     \<longrightarrow> snd x + midPad < fst y - midPad)))"
proof -
  let ?f = "trimmedRange coverDict (Finite maxEndGap) (Finite maxMidGap) endPad midPad"
  let ?g = "\<lambda>r. trimmedSpec maxEndGap maxMidGap endPad midPad (cover (fst r)) r"
  have gaps: "maxGaps maxGapFrac minAlignedBases endPad midPad
                = Inr (Finite maxEndGap, Finite maxMidGap)"
    unfolding assms(9,10) by (rule maxGaps_finite[OF assms(1-8)])
  have each: "\<forall>r \<in> set seqRanges. ?f r = Inr (?g r)"
  proof
    fix r assume r: "r \<in> set seqRanges"
    obtain seqName rangeBeg rangeEnd where req: "r = (seqName, rangeBeg, rangeEnd)"
      by (cases r) auto
    from assms(11) r req have c: "coverDict seqName = Some (cover seqName)"
      and o: "filter (\<lambda>i. fst i < rangeEnd \<and> rangeBeg < snd i) (cover seqName) \<noteq> []"
      by fastforce+
    show "?f r = Inr (?g r)"
      unfolding req fst_conv
      by (rule trimmedRange_spec[where coverDict = coverDict and seqName = seqName, OF c o])
  qed
  have res: "trimmed seqRanges coverDict minAlignedBases maxGapFrac endPad midPad
               = Inr (concat (map ?g seqRanges))"
    unfolding trimmed_def gaps bindE_def sum.case prod.case mapE_map[OF each] ..
  have endThreshold: "real_of_int endPad \<le> maxEndGap" unfolding assms(9) by simp
  have midThreshold: "2 * real_of_int midPad \<le> maxMidGap" unfolding assms(10) by simp
  have props: "\<forall>r \<in> set seqRanges. \<forall>seqName rangeBeg rangeEnd.
             r = (seqName, rangeBeg, rangeEnd) \<longrightarrow>
             (let blocks = filter (\<lambda>i. fst i < rangeEnd \<and> rangeBeg < snd i) (cover seqName);
                  first = fst (hd blocks);
                  lst = snd (last blocks);
                  out = trimmedSpec maxEndGap maxMidGap endPad midPad (cover seqName) r;
                  newBeg = fst (snd (hd out));
                  newEnd = snd (snd (last out))
              in out \<noteq> []
               \<and> newBeg = (if maxEndGap < real_of_int (first - rangeBeg)
                           then first - endPad else rangeBeg)
               \<and> newEnd = (if maxEndGap < real_of_int (rangeEnd - lst)
                           then lst + endPad else rangeEnd)
               \<and> rangeBeg \<le> newBeg \<and> newEnd \<le> rangeEnd
               \<and> (0 \<le> endPad \<longrightarrow> newBeg \<le> max rangeBeg first \<and> min rangeEnd lst \<le> newEnd)
               \<and> (\<forall>(x, y) \<in> set (zip blocks (tl blocks)).
                     maxMidGap < real_of_int (fst y - snd x)
                     \<longrightarrow> snd x + midPad < fst y - midPad))"
  proof (intro ballI allI impI)
    fix r seqName rangeBeg rangeEnd
    assume "r \<in> set seqRanges" and req: "r = (seqName, rangeBeg, rangeEnd)"
    define blocks where "blocks = filter (\<lambda>i. fst i < rangeEnd \<and> rangeBeg < snd i) (cover seqName)"
    define out where "out = trimmedSpec maxEndGap maxMidGap endPad midPad (cover seqName) r"
    define first where "first = fst (hd blocks)"
    define lst where "lst = snd (last blocks)"
    from trimmedSpec_ends[OF out_def[unfolded req] blocks_def]
    have ne: "out \<noteq> []"
      and nb: "fst (snd (hd out)) = (if maxEndGap < real_of_int (first - rangeBeg)
                           then first - endPad else rangeBeg)"
      and ne': "snd (snd (last out)) = (if maxEndGap < real_of_int (rangeEnd - lst)
                           then lst + endPad else rangeEnd)"
      unfolding first_def lst_def by simp_all
    have s1: "rangeBeg \<le> fst (snd (hd out))"
    proof (cases "maxEndGap < real_of_int (first - rangeBeg)")
      case True
      with endThreshold have "real_of_int endPad < real_of_int (first - rangeBeg)" by linarith
      then have "endPad < first - rangeBeg" by (simp only: of_int_less_iff)
      with True show ?thesis unfolding nb by simp
    next
      case False
      then show ?thesis unfolding nb by simp
    qed
    have s2: "snd (snd (last out)) \<le> rangeEnd"
    proof (cases "maxEndGap < real_of_int (rangeEnd - lst)")
      case True
      with endThreshold have "real_of_int endPad < real_of_int (rangeEnd - lst)" by linarith
      then have "endPad < rangeEnd - lst" by (simp only: of_int_less_iff)
      with True show ?thesis unfolding ne' by simp
    next
      case False
      then show ?thesis unfolding ne' by simp
    qed
    have s3: "0 \<le> endPad \<longrightarrow> fst (snd (hd out)) \<le> max rangeBeg first
                \<and> min rangeEnd lst \<le> snd (snd (last out))"
      unfolding nb ne' by (auto simp: max_def min_def)
    have s4: "\<forall>(x, y) \<in> set (zip blocks (tl blocks)).
                     maxMidGap < real_of_int (fst y - snd x)
                     \<longrightarrow> snd x + midPad < fst y - midPad"
    proof (clarify)
      fix xb xe yb ye
      assume "maxMidGap < real_of_int (fst (yb, ye) - snd (xb, xe))"
      with midThreshold have "2 * real_of_int midPad < real_of_int (yb - xe)" by simp
      then have "real_of_int (2 * midPad) < real_of_int (yb - xe)" by simp
      then have "2 * midPad < yb - xe" by (simp only: of_int_less_iff)
      then show "snd (xb, xe) + midPad < fst (yb, ye) - midPad" by simp
    qed
    show "let blocks = filter (\<lambda>i. fst i < rangeEnd \<and> rangeBeg < snd i) (cover seqName);
                  first = fst (hd blocks);
                  lst = snd (last blocks);
                  out = trimmedSpec maxEndGap maxMidGap endPad midPad (cover seqName) r;
                  newBeg = fst (snd (hd out));
                  newEnd = snd (snd (last out))
              in out \<noteq> []
               \<and> newBeg = (if maxEndGap < real_of_int (first - rangeBeg)
                           then first - endPad else rangeBeg)
               \<and> newEnd = (if maxEndGap < real_of_int (rangeEnd - lst)
                           then lst + endPad else rangeEnd)
               \<and> rangeBeg \<le> newBeg \<and> newEnd \<le> rangeEnd
               \<and> (0 \<le> endPad \<longrightarrow> newBeg \<le> max rangeBeg first \<and> min rangeEnd lst \<le> newEnd)
               \<and> (\<forall>(x, y) \<in> set (zip blocks (tl blocks)).
                     maxMidGap < real_of_int (fst y - snd x)
                     \<longrightarrow> snd x + midPad < fst y - midPad)"
      unfolding Let_def blocks_def[symmetric] out_def[symmetric] first_def[symmetric]
        lst_def[symmetric]
      using ne nb ne' s1 s2 s3 s4 by (intro conjI)
  qed
  from res props show ?thesis by (intro conjI)
qed

theorem trimmed_ends_witness:
  "trimmed [(''chr1'', 0, 200)] [''chr1'' \<mapsto> [(57, 100), (150, 160)]] 100 ''0.57,0.2'' 2 3
     = Inr [(''chr1'', 55, 103), (''chr1'', 147, 200)]
   \<and> float_of_string ''0.57'' = Inr (Finite (5134103575202365 / 2 ^ 53))
   \<and> round64 (5134103575202365 / 2 ^ 53 * real_of_int 100) = Finite (8022036836253695 / 2 ^ 47)
   \<and> (8022036836253695 / 2 ^ 47 :: real) < 57"
proof -
  have h1: "unpack2 (twoValuesFromOption ''0.57,0.2'' CHR '','') = Inr (''0.57'', ''0.2'')"
    by (simp add: twoValuesFromOption_def)
  have h4: "\<bar>100 :: int\<bar> \<le> 2 ^ 53" by simp
  have h5: "\<bar>2 :: int\<bar> \<le> 2 ^ 53" by simp
  have h6: "\<bar>3 :: int\<bar> \<le> 2 ^ 52" by simp
  have h9: "(8022036836253695 / 2 ^ 47 :: real)
              = max (8022036836253695 / 2 ^ 47) (real_of_int 2)" by simp
  have h10: "(20 :: real) = max 20 (2 * real_of_int 3)" by simp
  have h11: "\<forall>r \<in> set [(''chr1'', 0 :: int, 200 :: int)].
           [''chr1'' \<mapsto> [(57 :: int, 100 :: int), (150, 160)]] (fst r)
             = Some ((\<lambda>_. [(57, 100), (150, 160)]) (fst r))
           \<and> filter (\<lambda>i. fst i < snd (snd r) \<and> fst (snd r) < snd i)
                 ((\<lambda>_. [(57, 100), (150, 160)]) (fst r)) \<noteq> []"
    by simp
  note t = trimmed_ends[OF h1 example_057 example_02 h4 h5 h6
      example_end_product example_mid_product h9 h10 h11]
  from t have "trimmed [(''chr1'', 0, 200)] [''chr1'' \<mapsto> [(57, 100), (150, 160)]] 100
                 ''0.57,0.2'' 2 3
     = Inr (concat (map (\<lambda>r. trimmedSpec (8022036836253695 / 2 ^ 47) 20 2 3
                                    ((\<lambda>_. [(57, 100), (150, 160)]) (fst r)) r)
                     [(''chr1'', 0, 200)]))"
    by (elim conjE)
  also have "concat (map (\<lambda>r. trimmedSpec (8022036836253695 / 2 ^ 47) 20 2 3
                                    ((\<lambda>_. [(57, 100), (150, 160)]) (fst r)) r)
                     [(''chr1'', 0, 200)])
               = [(''chr1'', 55, 103), (''chr1'', 147, 200)]"
    by (simp add: trimmedSpec_def cutGaps_def)
  finally have r: "trimmed [(''chr1'', 0, 200)] [''chr1'' \<mapsto> [(57, 100), (150, 160)]] 100
                 ''0.57,0.2'' 2 3 = Inr [(''chr1'', 55, 103), (''chr1'', 147, 200)]" .
  have lt: "(8022036836253695 / 2 ^ 47 :: real) < 57" by simp
  from r example_057 example_end_product lt show ?thesis by (intro conjI)
qed

section \<open>Properties of the rasteriser\<close>








lemma next_pix_forward:
  assumes "1 \<le> (S :: int)"
  shows "1 \<le> min (S - beg1 mod S) (S - beg2 mod S)"
proof -
  from assms have "beg1 mod S < S" "beg2 mod S < S" by simp_all
  then show ?thesis by simp
qed


lemma drawLineForward_returns:
  assumes "1 \<le> S"
  shows "\<exists>r. drawLineForward st width S beg1 beg2 sz = Some r"
proof (induction "nat sz" arbitrary: st beg1 beg2 sz rule: less_induct)
  case less
  define idx where "idx = (beg2 div S) * width + beg1 div S"
  define np where "np = min (S - beg1 mod S) (S - beg2 mod S)"
  have np: "1 \<le> np" unfolding np_def by (rule next_pix_forward[OF assms])
  have S: "S \<noteq> 0" using assms by simp
  have eq: "drawLineForward st width S beg1 beg2 sz
              = (case orAt st idx 1 of
                   Inl e \<Rightarrow> Some (Inl e)
                 | Inr st' \<Rightarrow>
                     if np \<ge> sz then Some (Inr st')
                     else drawLineForward st' width S (beg1 + np) (beg2 + np) (sz - np))"
    apply (subst drawLineForward.simps)
    apply (simp only: S if_False Let_def)
    apply (simp only: idx_def[symmetric] np_def[symmetric])
    done
  show ?case
  proof (cases "orAt st idx 1")
    case (Inl e)
    then show ?thesis unfolding eq by simp
  next
    case (Inr st1)
    show ?thesis
    proof (cases "np \<ge> sz")
      case True
      then show ?thesis unfolding eq Inr by simp
    next
      case False
      then have "nat (sz - np) < nat sz" using np by linarith
      from less[OF this] obtain r
        where "drawLineForward st1 width S (beg1 + np) (beg2 + np) (sz - np) = Some r" by blast
      then show ?thesis unfolding eq Inr using False by simp
    qed
  qed
qed






lemma cell_in_grid:
  assumes "0 \<le> (x :: int)" and "x < w" and "0 \<le> y" and "y < h"
  shows "0 \<le> y * w + x \<and> y * w + x < w * h"
proof -
  have w: "0 \<le> w" using assms(1,2) by simp
  have "y * w \<le> (h - 1) * w" by (rule mult_right_mono) (use assms(4) w in simp_all)
  also have "(h - 1) * w = w * h - w" by (simp add: algebra_simps)
  finally have up: "y * w \<le> w * h - w" .
  have "0 \<le> y * w" using assms(3) w by simp
  with up assms(1,2) show ?thesis by linarith
qed

lemma diagonalCells_Suc:
  "diagonalCells width beg1 beg2 (Suc n)
     = nat (beg2 * width + beg1) # diagonalCells width (beg1 + 1) (beg2 + 1) n"
proof -
  have "map (\<lambda>k. nat ((beg2 + int k) * width + (beg1 + int k))) [0..<Suc n]
          = nat ((beg2 + int 0) * width + (beg1 + int 0))
            # map (\<lambda>k. nat ((beg2 + int (Suc k)) * width + (beg1 + int (Suc k)))) [0..<n]"
    by (rule map_upt_Suc)
  also have "(\<lambda>k. nat ((beg2 + int (Suc k)) * width + (beg1 + int (Suc k))))
               = (\<lambda>k. nat ((beg2 + 1 + int k) * width + (beg1 + 1 + int k)))"
    by (rule ext) (simp add: algebra_simps)
  finally show ?thesis unfolding diagonalCells_def by simp
qed

lemma drawLineForward_unit_step:
  assumes "0 \<le> beg1" and "beg1 < width" and "0 \<le> beg2" and "beg2 < height"
    and "int (length hits) = width * height"
  shows "drawLineForward (hits, writes) width 1 beg1 beg2 L
           = (if L \<le> 1
              then Some (Inr (hits[nat (beg2 * width + beg1)
                                   := hits ! nat (beg2 * width + beg1) OR 1],
                              writes @ [(nat (beg2 * width + beg1), 1)]))
              else drawLineForward (hits[nat (beg2 * width + beg1)
                                         := hits ! nat (beg2 * width + beg1) OR 1],
                                    writes @ [(nat (beg2 * width + beg1), 1)])
                     width 1 (beg1 + 1) (beg2 + 1) (L - 1))"
proof -
  from cell_in_grid[OF assms(1-4)] assms(5)
  have idx: "0 \<le> beg2 * width + beg1" "beg2 * width + beg1 < int (length hits)" by simp_all
  have o: "orAt (hits, writes) (beg2 * width + beg1) 1
             = Inr (hits[nat (beg2 * width + beg1) := hits ! nat (beg2 * width + beg1) OR 1],
                    writes @ [(nat (beg2 * width + beg1), 1)])"
    using idx by (simp add: orAt_def Let_def)
  show ?thesis
    apply (subst drawLineForward.simps)
    apply (simp only: Let_def div_by_1 mod_by_1 o sum.case)
    apply simp
    done
qed

lemma drawLineForward_unit:
  assumes "0 \<le> beg1" and "0 \<le> beg2"
    and "beg1 + int (Suc n) \<le> width" and "beg2 + int (Suc n) \<le> height"
    and "int (length hits) = width * height"
  shows "drawLineForward (hits, writes) width 1 beg1 beg2 (int (Suc n))
           = Some (Inr (fold (\<lambda>c h. h[c := h ! c OR 1]) (diagonalCells width beg1 beg2 (Suc n)) hits,
                        writes @ map (\<lambda>c. (c, 1)) (diagonalCells width beg1 beg2 (Suc n))))"
  using assms
proof (induction n arbitrary: hits writes beg1 beg2)
  case 0
  have "drawLineForward (hits, writes) width 1 beg1 beg2 (int (Suc 0))
          = Some (Inr (hits[nat (beg2 * width + beg1) := hits ! nat (beg2 * width + beg1) OR 1],
                              writes @ [(nat (beg2 * width + beg1), 1)]))"
    by (subst drawLineForward_unit_step[where height = height]) (use 0 in simp_all)
  then show ?case by (simp add: diagonalCells_def)
next
  case (Suc n)
  let ?c = "nat (beg2 * width + beg1)"
  let ?hits = "hits[?c := hits ! ?c OR 1]"
  have step: "drawLineForward (hits, writes) width 1 beg1 beg2 (int (Suc (Suc n)))
          = drawLineForward (?hits, writes @ [(?c, 1)]) width 1 (beg1 + 1) (beg2 + 1)
              (int (Suc n))"
    by (subst drawLineForward_unit_step[where height = height]) (use Suc.prems in simp_all)
  have ih: "drawLineForward (?hits, writes @ [(?c, 1)]) width 1 (beg1 + 1) (beg2 + 1)
              (int (Suc n))
          = Some (Inr (fold (\<lambda>c h. h[c := h ! c OR 1])
                         (diagonalCells width (beg1 + 1) (beg2 + 1) (Suc n)) ?hits,
                       (writes @ [(?c, 1)])
                         @ map (\<lambda>c. (c, 1)) (diagonalCells width (beg1 + 1) (beg2 + 1) (Suc n))))"
    by (rule Suc.IH) (use Suc.prems in simp_all)
  show ?case
    unfolding step ih diagonalCells_Suc[of width beg1 beg2 "Suc n"] by simp
qed

lemma diagonalCells_distinct:
  assumes "0 \<le> beg1" and "0 \<le> beg2" and "0 \<le> width"
  shows "distinct (diagonalCells width beg1 beg2 n)"
proof -
  let ?g = "\<lambda>k. (beg2 + int k) * width + (beg1 + int k)"
  have nonneg: "0 \<le> ?g k" for k using assms by simp
  have mono: "?g i < ?g j" if "i < j" for i j :: nat
  proof -
    have "(beg2 + int i) * width \<le> (beg2 + int j) * width"
      by (rule mult_right_mono) (use that assms(3) in simp_all)
    moreover have "beg1 + int i < beg1 + int j" using that by simp
    ultimately show ?thesis by linarith
  qed
  have ne: "nat (?g i) \<noteq> nat (?g j)" if "i \<noteq> j" for i j :: nat
  proof (cases "i < j")
    case True
    from mono[OF True] nonneg[of i] nonneg[of j] show ?thesis by linarith
  next
    case False
    with that have "j < i" by simp
    from mono[OF this] nonneg[of i] nonneg[of j] show ?thesis by linarith
  qed
  show ?thesis
    unfolding diagonalCells_def distinct_conv_nth
    using ne by simp
qed

lemma diagonalCells_in_grid:
  assumes "0 \<le> beg1" and "0 \<le> beg2"
    and "beg1 + int n \<le> width" and "beg2 + int n \<le> height"
    and "int (length hits) = width * height"
  shows "\<forall>c \<in> set (diagonalCells width beg1 beg2 n). c < length hits"
proof
  fix c assume "c \<in> set (diagonalCells width beg1 beg2 n)"
  then obtain k where k: "k < n" and c: "c = nat ((beg2 + int k) * width + (beg1 + int k))"
    unfolding diagonalCells_def by auto
  have "0 \<le> (beg2 + int k) * width + (beg1 + int k)
        \<and> (beg2 + int k) * width + (beg1 + int k) < width * height"
    by (rule cell_in_grid) (use assms k in simp_all)
  with assms(5) show "c < length hits" unfolding c by linarith
qed





text \<open>
  Claim C3. With one base per pixel, \<open>drawLineForward\<close> on a block of length \<open>L \<ge> 1\<close>
  whose diagonal lies inside the grid returns, and what it executed is exactly one write of
  bit 1 to each of the \<open>L\<close> cells of the diagonal, from first to last: the cells are
  pairwise distinct, none is skipped and no other cell is written. For every scale
  \<open>S \<ge> 1\<close> and every block length each iteration advances by at least one base and the
  loop returns, with a grid or with \<open>IndexError\<close>.
\<close>

theorem drawLineForward_unit_scale:
  assumes "1 \<le> L" and "0 \<le> beg1" and "0 \<le> beg2"
    and "beg1 + L \<le> width" and "beg2 + L \<le> height"
    and "int (length hits) = width * height"
  shows "drawLineForward (hits, writes) width 1 beg1 beg2 L
           = Some (Inr (fold (\<lambda>c h. h[c := h ! c OR 1])
                          (diagonalCells width beg1 beg2 (nat L)) hits,
                        writes @ map (\<lambda>c. (c, 1)) (diagonalCells width beg1 beg2 (nat L))))
       \<and> length (diagonalCells width beg1 beg2 (nat L)) = nat L
       \<and> distinct (diagonalCells width beg1 beg2 (nat L))
       \<and> (\<forall>c \<in> set (diagonalCells width beg1 beg2 (nat L)). c < length hits)
       \<and> (\<forall>S st w b1 b2 sz. 1 \<le> S \<longrightarrow>
             1 \<le> min (S - b1 mod S) (S - b2 mod S)
             \<and> (\<exists>r. drawLineForward st w S b1 b2 sz = Some r))"
proof -
  define n where "n = nat (L - 1)"
  have n: "nat L = Suc n" and L: "L = int (Suc n)"
    using assms(1) by (simp_all add: n_def)
  have a: "drawLineForward (hits, writes) width 1 beg1 beg2 L
           = Some (Inr (fold (\<lambda>c h. h[c := h ! c OR 1])
                          (diagonalCells width beg1 beg2 (nat L)) hits,
                        writes @ map (\<lambda>c. (c, 1)) (diagonalCells width beg1 beg2 (nat L))))"
    unfolding n unfolding L
    by (rule drawLineForward_unit[where height = height]) (use assms L in simp_all)
  have b: "length (diagonalCells width beg1 beg2 (nat L)) = nat L"
    by (simp add: diagonalCells_def)
  have w: "0 \<le> width" using assms(1,2,4) by linarith
  have c: "distinct (diagonalCells width beg1 beg2 (nat L))"
    by (rule diagonalCells_distinct[OF assms(2,3) w])
  have d: "\<forall>c \<in> set (diagonalCells width beg1 beg2 (nat L)). c < length hits"
    by (rule diagonalCells_in_grid[where height = height]) (use assms in simp_all)
  have e: "\<forall>S st w b1 b2 sz. 1 \<le> S \<longrightarrow>
             1 \<le> min (S - b1 mod S) (S - b2 mod S)
             \<and> (\<exists>r. drawLineForward st w S b1 b2 sz = Some r)"
    using next_pix_forward drawLineForward_returns by blast
  from a b c d e show ?thesis by (intro conjI)
qed

theorem drawLineForward_unit_scale_witness:
  "drawLineForward ([0, 0, 0, 0, 0, 0], []) 3 1 0 0 2
     = Some (Inr ([1, 0, 0, 0, 1, 0], [(0, 1), (4, 1)]))
   \<and> diagonalCells 3 0 0 2 = [0, 4]
   \<and> (\<exists>r. drawLineForward ([0, 0, 0, 0, 0, 0], []) 3 4 1 2 7 = Some r)"
  using drawLineForward_unit_scale[of 2 0 0 3 2 "[0, 0, 0, 0, 0, 0]" "[]"]
  by (simp add: diagonalCells_def numeral_2_eq_2)



end
